theory Spec2Isabelle
  imports Main "HOL-Library.Word" "HOL-Library.Multiset"
begin

chapter \<open>A syllabus scraper: canonical text, fingerprints, snapshots and their diff\<close>

text \<open>
  The development embeds the change-detection part of the scraper: \<open>normalizeText\<close>,
  \<open>makeHash\<close> and \<open>compareCourses\<close> of \<^verbatim>\<open>src/utils.ts\<close>, \<open>loadPrev\<close> and
  \<open>saveCurr\<close> of \<^verbatim>\<open>src/storage.ts\<close>, and \<open>fetchDetail\<close> with the worker pool of
  \<^verbatim>\<open>src/scrape.ts\<close>. Part I holds the definitions, Part II the auxiliary lemmas,
  Part III one theorem for each property of the specification.
\<close>

section \<open>Part I: the embedding\<close>

subsection \<open>JavaScript strings\<close>

text \<open>
  A JavaScript string is a sequence of 16-bit code units. Literals of the source are
  written \<open>js ''...''\<close>.
\<close>

type_synonym jschar = "16 word"
type_synonym jsstring = "jschar list"

definition js :: "string \<Rightarrow> jsstring" where
  "js s = map of_char s"

definition LF :: jschar where "LF = 0x000A"
definition CR :: jschar where "CR = 0x000D"
definition SP :: jschar where "SP = 0x0020"
definition NBSP :: jschar where "NBSP = 0x00A0"

text \<open>
  The class \<^verbatim>\<open>\s\<close> of a JavaScript regular expression: the white space code points
  and the line terminators of ECMAScript. \<^verbatim>\<open>String.prototype.trim\<close> strips the same set.
\<close>

definition is_space :: "jschar \<Rightarrow> bool" where
  "is_space c \<longleftrightarrow>
     c = 0x0009 \<or> c = 0x000A \<or> c = 0x000B \<or> c = 0x000C \<or> c = 0x000D \<or> c = 0x0020 \<or>
     c = 0x00A0 \<or> c = 0x1680 \<or> (0x2000 \<le> c \<and> c \<le> 0x200A) \<or>
     c = 0x2028 \<or> c = 0x2029 \<or> c = 0x202F \<or> c = 0x205F \<or> c = 0x3000 \<or> c = 0xFEFF"

text \<open>
  \<^verbatim>\<open>s.replace(/re/g, rep)\<close> for a regular expression that never matches the empty
  string: scan from the left; where the expression matches, emit \<open>rep\<close> and go on after
  the match, otherwise copy one code unit. The expression is given by its matcher, the
  length of its (greedy) match at the start of the rest of the string, \<open>0\<close> for none.
\<close>

function replace_global :: "(jsstring \<Rightarrow> nat) \<Rightarrow> jsstring \<Rightarrow> jsstring \<Rightarrow> jsstring" where
  "replace_global m rep [] = []"
| "replace_global m rep (c # cs) =
     (if m (c # cs) = 0 then c # replace_global m rep cs
      else rep @ replace_global m rep (drop (m (c # cs)) (c # cs)))"
  by pat_completeness auto
termination
  by (relation "measure (\<lambda>(m, rep, s). length s)") auto

text \<open>
  \<^verbatim>\<open>/\r?\n+/\<close>: an optional carriage return, then one or more line feeds. A carriage
  return that no line feed follows is no match: the optional part backtracks to empty
  and \<^verbatim>\<open>\n+\<close> fails on the carriage return.
\<close>

definition match_newlines :: "jsstring \<Rightarrow> nat" where
  "match_newlines s =
     (let (k, r) = (case s of [] \<Rightarrow> (0, s) | c # cs \<Rightarrow> if c = CR then (1, cs) else (0, s));
          n = length (takeWhile (\<lambda>x. x = LF) r)
      in if n = 0 then 0 else k + n)"

text \<open>\<^verbatim>\<open>/\s+/\<close> and \<^verbatim>\<open>/\u00A0/\<close>.\<close>

definition match_spaces :: "jsstring \<Rightarrow> nat" where
  "match_spaces s = length (takeWhile is_space s)"

definition match_nbsp :: "jsstring \<Rightarrow> nat" where
  "match_nbsp s = (case s of [] \<Rightarrow> 0 | c # cs \<Rightarrow> if c = NBSP then 1 else 0)"

definition trim :: "jsstring \<Rightarrow> jsstring" where
  "trim s = rev (dropWhile is_space (rev (dropWhile is_space s)))"

text \<open>
  \<^verbatim>\<open>normalizeText\<close> (utils.ts, lines 7 to 13). Its parameter has the type
  \<^verbatim>\<open>string\<close>, on which \<^verbatim>\<open>s ?? ""\<close> is \<open>s\<close>.
\<close>

definition normalizeText :: "jsstring \<Rightarrow> jsstring" where
  "normalizeText s =
     trim (replace_global match_nbsp [SP]
       (replace_global match_spaces [SP]
         (replace_global match_newlines [SP] s)))"

text \<open>
  The specification's canonicalizer, in its own words: every maximal run of white space
  (line breaks and the non-breaking space included) collapses to one ordinary space,
  then leading and trailing white space is trimmed.
\<close>

fun collapse_spaces :: "jsstring \<Rightarrow> jsstring" where
  "collapse_spaces [] = []"
| "collapse_spaces [c] = [if is_space c then SP else c]"
| "collapse_spaces (c # d # cs) =
     (if is_space c \<and> is_space d then collapse_spaces (d # cs)
      else (if is_space c then SP else c) # collapse_spaces (d # cs))"

definition canonicalize :: "jsstring \<Rightarrow> jsstring" where
  "canonicalize s = trim (collapse_spaces s)"

text \<open>No two neighbours of a string are both white space.\<close>

fun no_double :: "jsstring \<Rightarrow> bool" where
  "no_double (c # d # cs) \<longleftrightarrow> \<not> (is_space c \<and> is_space d) \<and> no_double (d # cs)"
| "no_double _ \<longleftrightarrow> True"

subsection \<open>Stubs, detail payloads and courses\<close>

text \<open>
  The item of the list page (scrape.ts, line 44), the payload that
  \<^verbatim>\<open>p.evaluate\<close> returns from a detail page (lines 88 to 105), and the type
  \<^verbatim>\<open>Course\<close> of types.ts: \<open>Course_base\<close> is \<^verbatim>\<open>Omit<Course, "hash">\<close>. The fields
  \<^verbatim>\<open>id\<close> and \<^verbatim>\<open>term\<close> are written \<open>id'\<close> and \<open>term'\<close>. An optional field is an
  \<open>option\<close>: \<open>None\<close> is \<^verbatim>\<open>undefined\<close>.
\<close>

record stub =
  id' :: jsstring
  title :: jsstring
  url :: jsstring
  instructor :: jsstring
  term' :: jsstring
  dayPeriod :: jsstring

record detail =
  bodyText :: jsstring
  updatedAt :: jsstring
  room :: jsstring

record Course_base =
  id' :: jsstring
  title :: jsstring
  instructor :: jsstring
  term' :: jsstring
  dayPeriod :: jsstring
  room :: "jsstring option"
  updatedAt :: "jsstring option"
  bodyText :: jsstring
  detailUrl :: jsstring

record Course = Course_base +
  hash :: jsstring

subsection \<open>The fingerprint\<close>

text \<open>\<^verbatim>\<open>a ?? b\<close> and \<^verbatim>\<open>Array.prototype.join\<close> on an array of strings.\<close>

definition nullish :: "'a option \<Rightarrow> 'a \<Rightarrow> 'a" where
  "nullish a b = (case a of None \<Rightarrow> b | Some x \<Rightarrow> x)"

fun join :: "jsstring \<Rightarrow> jsstring list \<Rightarrow> jsstring" where
  "join sep [] = []"
| "join sep [x] = x"
| "join sep (x # y # ys) = x @ sep @ join sep (y # ys)"

text \<open>
  \<^verbatim>\<open>makeHash\<close> (utils.ts, lines 15 to 26). The digest of \<^verbatim>\<open>node:crypto\<close>,
  \<^verbatim>\<open>crypto.createHash("sha256").update(key).digest("hex")\<close>, is the parameter
  \<open>sha256_hex\<close>: the library is not part of the repository.
\<close>

definition makeHash :: "(jsstring \<Rightarrow> jsstring) \<Rightarrow> 'a Course_base_scheme \<Rightarrow> jsstring" where
  "makeHash sha256_hex course =
     (let key = join (js ''|'') (map normalizeText
                  [title course, instructor course, term' course, dayPeriod course,
                   nullish (room course) [], nullish (updatedAt course) [],
                   bodyText course])
      in sha256_hex key)"

subsection \<open>Maps and the diff of two snapshots\<close>

text \<open>
  A JavaScript \<^verbatim>\<open>Map\<close> is the list of its entries in insertion order, its keys
  pairwise distinct. \<^verbatim>\<open>set\<close> on a key of the map replaces the value where the entry
  stands; on a new key it appends an entry. \<^verbatim>\<open>new Map(entries)\<close> sets the entries
  one after the other into an empty map.
\<close>

type_synonym ('k, 'v) js_map = "('k \<times> 'v) list"

definition Map_get :: "('k, 'v) js_map \<Rightarrow> 'k \<Rightarrow> 'v option" where
  "Map_get m k = map_of m k"

definition Map_has :: "('k, 'v) js_map \<Rightarrow> 'k \<Rightarrow> bool" where
  "Map_has m k \<longleftrightarrow> k \<in> set (map fst m)"

primrec Map_set :: "('k, 'v) js_map \<Rightarrow> 'k \<Rightarrow> 'v \<Rightarrow> ('k, 'v) js_map" where
  "Map_set [] k v = [(k, v)]"
| "Map_set (e # m) k v = (if fst e = k then (k, v) # m else e # Map_set m k v)"

definition Map_new :: "('k \<times> 'v) list \<Rightarrow> ('k, 'v) js_map" where
  "Map_new entries = foldl (\<lambda>m (k, v). Map_set m k v) [] entries"

definition Map_entries :: "('k, 'v) js_map \<Rightarrow> ('k \<times> 'v) list" where
  "Map_entries m = m"

record change =
  before :: Course
  after :: Course

record DiffResult =
  added :: "Course list"
  changed :: "change list"
  removed :: "Course list"

text \<open>
  \<^verbatim>\<open>compareCourses\<close> (utils.ts, lines 28 to 42): the two \<^verbatim>\<open>for\<close> loops, each over the
  entries of one map, pushing onto the three arrays. A course is an object and so
  truthy: \<^verbatim>\<open>!p\<close> holds exactly when \<^verbatim>\<open>prev.get(id)\<close> is \<^verbatim>\<open>undefined\<close>.
\<close>

fun compare_current ::
  "(jsstring, Course) js_map \<Rightarrow> (jsstring \<times> Course) list \<Rightarrow> DiffResult \<Rightarrow> DiffResult" where
  "compare_current prev [] d = d"
| "compare_current prev ((k, c) # es) d =
     (case Map_get prev k of
        None \<Rightarrow> compare_current prev es (d\<lparr>added := added d @ [c]\<rparr>)
      | Some p \<Rightarrow>
          if hash p \<noteq> hash c
          then compare_current prev es (d\<lparr>changed := changed d @ [\<lparr>before = p, after = c\<rparr>]\<rparr>)
          else compare_current prev es d)"

fun compare_previous ::
  "(jsstring, Course) js_map \<Rightarrow> (jsstring \<times> Course) list \<Rightarrow> DiffResult \<Rightarrow> DiffResult" where
  "compare_previous cur [] d = d"
| "compare_previous cur ((k, p) # es) d =
     (if \<not> Map_has cur k then compare_previous cur es (d\<lparr>removed := removed d @ [p]\<rparr>)
      else compare_previous cur es d)"

definition compareCourses ::
  "(jsstring, Course) js_map \<Rightarrow> (jsstring, Course) js_map \<Rightarrow> DiffResult" where
  "compareCourses prev cur =
     compare_previous cur (Map_entries prev)
       (compare_current prev (Map_entries cur) \<lparr>added = [], changed = [], removed = []\<rparr>)"

text \<open>
  The changes that the first loop pushes, entry by entry of the current map.
\<close>

definition changes_of :: "(jsstring, Course) js_map \<Rightarrow> (jsstring \<times> Course) list \<Rightarrow> change list" where
  "changes_of prev es =
     concat (map (\<lambda>(k, c). case Map_get prev k of
                               None \<Rightarrow> []
                             | Some p \<Rightarrow> if hash p \<noteq> hash c then [\<lparr>before = p, after = c\<rparr>] else []) es)"

text \<open>
  A snapshot: a map whose keys are pairwise distinct and are the \<^verbatim>\<open>id\<close>s of their
  records, as \<^verbatim>\<open>new Map(arr.map(c => [c.id, c]))\<close> builds it (storage.ts, line 10;
  scrape.ts, line 161). The unchanged ids of two snapshots, in the specification's words:
  the ids present in both with equal fingerprint.
\<close>

definition snapshot :: "(jsstring, Course) js_map \<Rightarrow> bool" where
  "snapshot m \<longleftrightarrow> distinct (map fst m) \<and> list_all (\<lambda>(k, c). id' c = k) m"

definition snapshot_of :: "Course list \<Rightarrow> (jsstring, Course) js_map" where
  "snapshot_of arr = Map_new (map (\<lambda>c. (id' c, c)) arr)"

definition unchanged :: "(jsstring, Course) js_map \<Rightarrow> (jsstring, Course) js_map \<Rightarrow> jsstring list" where
  "unchanged prev cur =
     map fst (filter (\<lambda>(k, c). case Map_get prev k of None \<Rightarrow> False | Some p \<Rightarrow> hash p = hash c) cur)"

subsection \<open>Storage: JSON values, the file system, load and save\<close>

text \<open>An exception thrown by the platform: a value of a sum type carries it.\<close>

datatype js_error = TypeError | SyntaxError | SystemError

text \<open>
  The values \<^verbatim>\<open>JSON.parse\<close> returns, and \<^verbatim>\<open>undefined\<close> for a property an object
  does not have. A number is carried by a code of its value; nothing here computes with
  it. An object is the list of its own properties.
\<close>

datatype jsval =
    JUndefined
  | JNull
  | JBool bool
  | JNum int
  | JStr jsstring
  | JArr "jsval list"
  | JObj "(jsstring \<times> jsval) list"

text \<open>
  A course as the object it is at run time, its properties in the order in which
  \<^verbatim>\<open>fetchDetail\<close> creates them (scrape.ts, lines 116 to 128). An absent optional field
  is no property: \<^verbatim>\<open>JSON.stringify\<close> leaves out a property whose value is
  \<^verbatim>\<open>undefined\<close>. \<open>course_of_val\<close> reads the fields back by name.
\<close>

definition optional_prop :: "string \<Rightarrow> jsstring option \<Rightarrow> (jsstring \<times> jsval) list" where
  "optional_prop name v = (case v of None \<Rightarrow> [] | Some s \<Rightarrow> [(js name, JStr s)])"

definition course_val :: "Course \<Rightarrow> jsval" where
  "course_val c = JObj
     ([(js ''id'', JStr (id' c)), (js ''title'', JStr (title c)),
       (js ''instructor'', JStr (instructor c)), (js ''term'', JStr (term' c)),
       (js ''dayPeriod'', JStr (dayPeriod c))]
      @ optional_prop ''room'' (room c) @ optional_prop ''updatedAt'' (updatedAt c)
      @ [(js ''bodyText'', JStr (bodyText c)), (js ''detailUrl'', JStr (detailUrl c)),
         (js ''hash'', JStr (hash c))])"

definition str_prop :: "(jsstring \<times> jsval) list \<Rightarrow> string \<Rightarrow> jsstring option" where
  "str_prop ps name = (case map_of ps (js name) of Some (JStr s) \<Rightarrow> Some s | _ \<Rightarrow> None)"

definition course_of_val :: "jsval \<Rightarrow> Course option" where
  "course_of_val v =
     (case v of
        JObj ps \<Rightarrow>
          (case (str_prop ps ''id'', str_prop ps ''title'', str_prop ps ''instructor'',
                 str_prop ps ''term'', str_prop ps ''dayPeriod'', str_prop ps ''bodyText'',
                 str_prop ps ''detailUrl'', str_prop ps ''hash'') of
             (Some i, Some t, Some ins, Some te, Some d, Some b, Some u, Some h) \<Rightarrow>
               Some \<lparr>id' = i, title = t, instructor = ins, term' = te, dayPeriod = d,
                     room = str_prop ps ''room'', updatedAt = str_prop ps ''updatedAt'',
                     bodyText = b, detailUrl = u, hash = h\<rparr>
           | _ \<Rightarrow> None)
      | _ \<Rightarrow> None)"

text \<open>
  The text of a file is kept by what \<^verbatim>\<open>JSON.parse\<close> makes of it: a syntax error, or
  the value the text denotes. \<^verbatim>\<open>JSON.stringify(courses, null, 2)\<close> writes a text
  that denotes the array of the courses' objects.
\<close>

datatype file_text = Malformed | Json jsval

definition JSON_parse :: "file_text \<Rightarrow> js_error + jsval" where
  "JSON_parse raw = (case raw of Malformed \<Rightarrow> Inl SyntaxError | Json v \<Rightarrow> Inr v)"

definition JSON_stringify :: "Course list \<Rightarrow> file_text" where
  "JSON_stringify courses = Json (JArr (map course_val courses))"

text \<open>
  The file system: the regular files with their texts, and the directories. Paths are
  compared as strings. \<open>dirname\<close> is \<^verbatim>\<open>path.dirname\<close> of \<^verbatim>\<open>node:path\<close> on a POSIX
  system: the path without its last component and the slashes before it.
\<close>

record filesystem =
  files :: "jsstring \<rightharpoonup> file_text"
  dirs :: "jsstring set"

definition slash :: jschar where "slash = 0x002F"

definition dirname :: "jsstring \<Rightarrow> jsstring" where
  "dirname p =
     (if p = [] then js ''.''
      else let hasRoot = (hd p = slash);
               r = dropWhile (\<lambda>c. c \<noteq> slash) (dropWhile (\<lambda>c. c = slash) (rev (tl p)))
           in if r = [] then (if hasRoot then js ''/'' else js ''.'')
              else if hasRoot \<and> length r = 1 then js ''//''
              else take (length r) p)"

fun ancestors :: "nat \<Rightarrow> jsstring \<Rightarrow> jsstring list" where
  "ancestors 0 p = [p]"
| "ancestors (Suc n) p = (if dirname p = p then [p] else p # ancestors n (dirname p))"

definition readFileSync :: "filesystem \<Rightarrow> jsstring \<Rightarrow> js_error + file_text" where
  "readFileSync fs p = (case files fs p of None \<Rightarrow> Inl SystemError | Some t \<Rightarrow> Inr t)"

definition existsSync :: "filesystem \<Rightarrow> jsstring \<Rightarrow> bool" where
  "existsSync fs p \<longleftrightarrow> p \<in> dirs fs \<or> files fs p \<noteq> None"

text \<open>
  \<^verbatim>\<open>fs.mkdirSync(dir, { recursive: true })\<close> makes the directory and the ancestors
  it lacks, and throws when one of them is a regular file.
  \<^verbatim>\<open>fs.writeFileSync\<close> throws when the path is a directory or its directory does not
  exist, and sets the text of the file otherwise.
\<close>

definition mkdirSync :: "filesystem \<Rightarrow> jsstring \<Rightarrow> js_error + filesystem" where
  "mkdirSync fs d =
     (if list_ex (\<lambda>a. files fs a \<noteq> None) (ancestors (length d) d) then Inl SystemError
      else Inr (fs\<lparr>dirs := dirs fs \<union> set (ancestors (length d) d)\<rparr>))"

definition writeFileSync :: "filesystem \<Rightarrow> jsstring \<Rightarrow> file_text \<Rightarrow> js_error + filesystem" where
  "writeFileSync fs p t =
     (if p \<in> dirs fs \<or> dirname p \<notin> dirs fs then Inl SystemError
      else Inr (fs\<lparr>files := (files fs)(p \<mapsto> t)\<rparr>))"

text \<open>
  The keys of the map that \<open>loadPrev\<close> builds are the values of \<^verbatim>\<open>c.id\<close>, compared as
  \<^verbatim>\<open>Map\<close> compares them: primitive values by value, objects and arrays by identity.
  The \<^verbatim>\<open>id\<close> of the \<open>i\<close>-th element of a parsed array is an object of its own, named
  \<open>KeyRef i\<close>.
\<close>

datatype map_key =
    KeyUndefined | KeyNull | KeyBool bool | KeyNum int | KeyStr jsstring | KeyRef nat

definition key_of :: "nat \<Rightarrow> jsval \<Rightarrow> map_key" where
  "key_of i v =
     (case v of
        JUndefined \<Rightarrow> KeyUndefined
      | JNull \<Rightarrow> KeyNull
      | JBool b \<Rightarrow> KeyBool b
      | JNum n \<Rightarrow> KeyNum n
      | JStr s \<Rightarrow> KeyStr s
      | JArr xs \<Rightarrow> KeyRef i
      | JObj ps \<Rightarrow> KeyRef i)"

text \<open>
  \<^verbatim>\<open>c.id\<close> on a parsed value: a \<^verbatim>\<open>TypeError\<close> on \<^verbatim>\<open>null\<close>, the property of an
  object that has it, \<^verbatim>\<open>undefined\<close> on every other value. \<^verbatim>\<open>arr.map(f)\<close> on a
  parsed value: a \<^verbatim>\<open>TypeError\<close> unless the value is an array (no other parsed value
  has a method \<^verbatim>\<open>map\<close>), and the first exception that \<open>f\<close> throws.
\<close>

definition get_id :: "jsval \<Rightarrow> js_error + jsval" where
  "get_id c =
     (case c of
        JNull \<Rightarrow> Inl TypeError
      | JUndefined \<Rightarrow> Inl TypeError
      | JObj ps \<Rightarrow> Inr (case map_of ps (js ''id'') of None \<Rightarrow> JUndefined | Some v \<Rightarrow> v)
      | _ \<Rightarrow> Inr JUndefined)"

fun map_elements :: "(nat \<Rightarrow> jsval \<Rightarrow> js_error + 'b) \<Rightarrow> nat \<Rightarrow> jsval list \<Rightarrow> js_error + 'b list" where
  "map_elements f i [] = Inr []"
| "map_elements f i (x # xs) =
     (case f i x of
        Inl e \<Rightarrow> Inl e
      | Inr y \<Rightarrow> (case map_elements f (Suc i) xs of Inl e \<Rightarrow> Inl e | Inr ys \<Rightarrow> Inr (y # ys)))"

definition array_map :: "(nat \<Rightarrow> jsval \<Rightarrow> js_error + 'b) \<Rightarrow> jsval \<Rightarrow> js_error + 'b list" where
  "array_map f arr = (case arr of JArr xs \<Rightarrow> map_elements f 0 xs | _ \<Rightarrow> Inl TypeError)"

definition id_entry :: "nat \<Rightarrow> jsval \<Rightarrow> js_error + (map_key \<times> jsval)" where
  "id_entry i c = (case get_id c of Inl e \<Rightarrow> Inl e | Inr v \<Rightarrow> Inr (key_of i v, c))"

text \<open>
  \<^verbatim>\<open>loadPrev\<close> (storage.ts, lines 6 to 14). The body of the \<^verbatim>\<open>try\<close> is \<open>load_body\<close>;
  the \<^verbatim>\<open>catch\<close> turns every exception into the empty map. The result is a sum, so
  that "it never throws" is a statement about it.
\<close>

definition load_body :: "filesystem \<Rightarrow> jsstring \<Rightarrow> js_error + (map_key, jsval) js_map" where
  "load_body fs filePath =
     (case readFileSync fs filePath of
        Inl e \<Rightarrow> Inl e
      | Inr raw \<Rightarrow>
          (case JSON_parse raw of
             Inl e \<Rightarrow> Inl e
           | Inr arr \<Rightarrow>
               (case array_map id_entry arr of
                  Inl e \<Rightarrow> Inl e
                | Inr entries \<Rightarrow> Inr (Map_new entries))))"

definition loadPrev :: "filesystem \<Rightarrow> jsstring \<Rightarrow> js_error + (map_key, jsval) js_map" where
  "loadPrev fs filePath =
     (case load_body fs filePath of
        Inl e \<Rightarrow> Inr (Map_new [])
      | Inr m \<Rightarrow> Inr m)"

text \<open>\<^verbatim>\<open>saveCurr\<close> (storage.ts, lines 16 to 20); its exceptions propagate.\<close>

definition saveCurr :: "filesystem \<Rightarrow> jsstring \<Rightarrow> Course list \<Rightarrow> js_error + filesystem" where
  "saveCurr fs filePath courses =
     (let dir = dirname filePath in
      case (if \<not> existsSync fs dir then mkdirSync fs dir else Inr fs) of
        Inl e \<Rightarrow> Inl e
      | Inr fs1 \<Rightarrow> writeFileSync fs1 filePath (JSON_stringify courses))"

text \<open>
  The snapshot of a list of courses as \<open>loadPrev\<close> returns it: the map of
  \<open>snapshot_of\<close>, its keys and records as run-time values.
\<close>

definition stored :: "(jsstring, Course) js_map \<Rightarrow> (map_key, jsval) js_map" where
  "stored m = map (\<lambda>(k, c). (KeyStr k, course_val c)) m"

subsection \<open>The detail fetch and the worker pool\<close>

text \<open>
  What the scraper takes from outside: the detail page of a locator (\<^verbatim>\<open>p.goto\<close>,
  \<^verbatim>\<open>p.waitForLoadState\<close> and \<^verbatim>\<open>p.evaluate\<close>, lines 85 to 105 of scrape.ts, which
  throw or yield the payload), the query parameters of a locator
  (\<^verbatim>\<open>new URL(url).searchParams\<close>, which throws on a string that is no URL), and the
  digest. A fetch is deterministic: its outcome is a function of the locator. The page
  itself is opened before the \<^verbatim>\<open>try\<close> block and closed in its \<^verbatim>\<open>finally\<close>
  (\<^verbatim>\<open>context.newPage()\<close>, \<^verbatim>\<open>p.close()\<close>); these two calls are taken to return.
\<close>

record env =
  page_detail :: "jsstring \<Rightarrow> js_error + detail"
  new_URL :: "jsstring \<Rightarrow> js_error + (jsstring \<times> jsstring) list"
  digest :: "jsstring \<Rightarrow> jsstring"

text \<open>
  \<^verbatim>\<open>searchParams.get(name)\<close> is the value of the first parameter of that name, or
  \<^verbatim>\<open>null\<close>. \<^verbatim>\<open>a || b\<close> on strings: the empty string is falsy, and so is \<^verbatim>\<open>null\<close>.
\<close>

definition searchParams_get :: "(jsstring \<times> jsstring) list \<Rightarrow> jsstring \<Rightarrow> jsstring option" where
  "searchParams_get ps name = map_of ps name"

definition or_else :: "jsstring option \<Rightarrow> jsstring \<Rightarrow> jsstring" where
  "or_else a b = (case a of None \<Rightarrow> b | Some s \<Rightarrow> if s = [] then b else s)"

text \<open>\<^verbatim>\<open>idFromUrl\<close> (scrape.ts, lines 107 to 114) and the record (lines 116 to 128).\<close>

definition idFromUrl :: "env \<Rightarrow> stub \<Rightarrow> jsstring" where
  "idFromUrl e item =
     (case new_URL e (stub.url item) of
        Inl err \<Rightarrow> stub.url item
      | Inr params \<Rightarrow> or_else (searchParams_get params (js ''id'')) (stub.url item))"

definition make_base :: "env \<Rightarrow> stub \<Rightarrow> detail \<Rightarrow> Course_base" where
  "make_base e item d =
     \<lparr>id' = or_else (Some (stub.id' item)) (idFromUrl e item),
      title = normalizeText (stub.title item),
      instructor = normalizeText (stub.instructor item),
      term' = normalizeText (stub.term' item),
      dayPeriod = normalizeText (stub.dayPeriod item),
      room = Some (normalizeText (detail.room d)),
      updatedAt = Some (normalizeText (detail.updatedAt d)),
      bodyText = normalizeText (detail.bodyText d),
      detailUrl = stub.url item\<rparr>"

definition make_course :: "env \<Rightarrow> stub \<Rightarrow> detail \<Rightarrow> Course" where
  "make_course e item d =
     (let base = make_base e item d; h = makeHash (digest e) base
      in Course_base.extend base (Course.fields h))"

text \<open>
  The pool (scrape.ts, lines 78 to 152). The shared state is the index \<^verbatim>\<open>i\<close>, the
  array \<^verbatim>\<open>courses\<close> and the lines of \<^verbatim>\<open>console.warn\<close> (each the locator of a failed
  fetch). JavaScript runs a worker without interruption from one \<^verbatim>\<open>await\<close> to the
  next, so a worker is at one of four places: at the head of its \<^verbatim>\<open>while\<close> loop,
  awaiting the page of an item, in the pause after it (\<^verbatim>\<open>p.close()\<close> and
  \<^verbatim>\<open>sleep(1000)\<close>), or returned.
\<close>

datatype worker = Looping | Fetching stub | Pacing | Finished

record pool =
  next_index :: nat
  courses :: "Course list"
  warnings :: "jsstring list"
  workers :: "worker list"

definition MAX_CONCURRENCY :: nat where
  "MAX_CONCURRENCY = 3"

text \<open>\<^verbatim>\<open>queue[idx]\<close>, which is \<^verbatim>\<open>undefined\<close> out of range.\<close>

definition queue_at :: "stub list \<Rightarrow> nat \<Rightarrow> stub option" where
  "queue_at queue idx = (if idx < length queue then Some (queue ! idx) else None)"

text \<open>
  The end of \<^verbatim>\<open>fetchDetail\<close>'s \<^verbatim>\<open>try\<close>: the record is pushed, or the \<^verbatim>\<open>catch\<close>
  logs the locator.
\<close>

definition fetchDetail_settle :: "env \<Rightarrow> stub \<Rightarrow> pool \<Rightarrow> pool" where
  "fetchDetail_settle e item st =
     (case page_detail e (stub.url item) of
        Inl err \<Rightarrow> st\<lparr>warnings := warnings st @ [stub.url item]\<rparr>
      | Inr d \<Rightarrow> st\<lparr>courses := courses st @ [make_course e item d]\<rparr>)"

text \<open>
  One step of worker \<open>w\<close>, \<open>None\<close> when it has none (it has returned, or there is no
  such worker): the loop test with \<^verbatim>\<open>idx = i++\<close> and the call of \<^verbatim>\<open>fetchDetail\<close>
  (or \<^verbatim>\<open>continue\<close> on a falsy item, or the return when the queue is drained); the
  settling of the fetch; the end of the pause.
\<close>

definition worker_step :: "env \<Rightarrow> stub list \<Rightarrow> nat \<Rightarrow> pool \<Rightarrow> pool option" where
  "worker_step e queue w st =
     (if length (workers st) \<le> w then None
      else case workers st ! w of
        Looping \<Rightarrow>
          if next_index st < length queue then
            let idx = next_index st in
            Some (st\<lparr>next_index := idx + 1,
                     workers := (workers st)[w :=
                       (case queue_at queue idx of None \<Rightarrow> Looping | Some item \<Rightarrow> Fetching item)]\<rparr>)
          else Some (st\<lparr>workers := (workers st)[w := Finished]\<rparr>)
      | Fetching item \<Rightarrow>
          Some ((fetchDetail_settle e item st)\<lparr>workers := (workers st)[w := Pacing]\<rparr>)
      | Pacing \<Rightarrow> Some (st\<lparr>workers := (workers st)[w := Looping]\<rparr>)
      | Finished \<Rightarrow> None)"

text \<open>
  A schedule is the list of the workers that step, in order: every interleaving of the
  workers is a schedule, those of the event loop among them. The pool starts with \<^verbatim>\<open>Math.min(MAX_CONCURRENCY, queue.length)\<close>
  workers, and \<^verbatim>\<open>Promise.all(workers)\<close> resolves when all have returned.
\<close>

fun run :: "env \<Rightarrow> stub list \<Rightarrow> nat list \<Rightarrow> pool \<Rightarrow> pool option" where
  "run e queue [] st = Some st"
| "run e queue (w # ws) st =
     (case worker_step e queue w st of None \<Rightarrow> None | Some st' \<Rightarrow> run e queue ws st')"

definition start :: "stub list \<Rightarrow> pool" where
  "start queue =
     \<lparr>next_index = 0, courses = [], warnings = [],
      workers = replicate (min MAX_CONCURRENCY (length queue)) Looping\<rparr>"

definition all_finished :: "pool \<Rightarrow> bool" where
  "all_finished st \<longleftrightarrow> list_all (\<lambda>w. w = Finished) (workers st)"

text \<open>The stubs whose fetch succeeds, with their records, and those whose fetch fails.\<close>

definition fetch_ok :: "env \<Rightarrow> stub \<Rightarrow> bool" where
  "fetch_ok e item = (case page_detail e (stub.url item) of Inl err \<Rightarrow> False | Inr d \<Rightarrow> True)"

definition records_of :: "env \<Rightarrow> stub list \<Rightarrow> Course list" where
  "records_of e items =
     concat (map (\<lambda>item. case page_detail e (stub.url item) of
                            Inl err \<Rightarrow> [] | Inr d \<Rightarrow> [make_course e item d]) items)"

definition failures_of :: "env \<Rightarrow> stub list \<Rightarrow> jsstring list" where
  "failures_of e items = map stub.url (filter (\<lambda>item. \<not> fetch_ok e item) items)"

text \<open>The stubs in flight, and a bound on the steps a pool has left.\<close>

definition in_flight :: "worker list \<Rightarrow> stub list" where
  "in_flight ws = concat (map (\<lambda>w. case w of Fetching item \<Rightarrow> [item] | _ \<Rightarrow> []) ws)"

definition rank :: "worker \<Rightarrow> nat" where
  "rank w = (case w of Looping \<Rightarrow> 1 | Fetching item \<Rightarrow> 3 | Pacing \<Rightarrow> 2 | Finished \<Rightarrow> 0)"

definition steps_left :: "stub list \<Rightarrow> pool \<Rightarrow> nat" where
  "steps_left queue st = 3 * (length queue - next_index st) + sum_list (map rank (workers st))"

text \<open>
  The invariant of the pool: the items taken so far are those in flight and those
  settled, and the settled ones account for the records and the warnings; a worker
  returns only when the queue is drained; there is a worker unless the queue is empty.
\<close>

definition pool_inv :: "env \<Rightarrow> stub list \<Rightarrow> pool \<Rightarrow> bool" where
  "pool_inv e queue st \<longleftrightarrow>
     next_index st \<le> length queue
   \<and> (\<exists>settled. mset settled + mset (in_flight (workers st)) = mset (take (next_index st) queue)
         \<and> mset (courses st) = mset (records_of e settled)
         \<and> mset (warnings st) = mset (failures_of e settled))
   \<and> (list_ex (\<lambda>w. w = Finished) (workers st) \<longrightarrow> next_index st = length queue)
   \<and> (workers st = [] \<longrightarrow> queue = [])"

section \<open>Part II: auxiliary lemmas\<close>

subsection \<open>White space and the three replacements\<close>

lemma is_space_SP: "is_space SP" by (simp add: is_space_def SP_def)
lemma is_space_LF: "is_space LF" by (simp add: is_space_def LF_def)
lemma is_space_CR: "is_space CR" by (simp add: is_space_def CR_def)
lemma is_space_NBSP: "is_space NBSP" by (simp add: is_space_def NBSP_def)
lemma NBSP_not_SP: "NBSP \<noteq> SP" by (simp add: NBSP_def SP_def)
lemma LF_not_SP: "LF \<noteq> SP" by (simp add: LF_def SP_def)

lemma drop_takeWhile_length: "drop (length (takeWhile P s)) s = dropWhile P s"
  by (induction s) auto

lemma replace_spaces_Cons:
  "replace_global match_spaces [SP] (c # cs) =
     (if is_space c then SP # replace_global match_spaces [SP] (dropWhile is_space cs)
      else c # replace_global match_spaces [SP] cs)"
  by (simp add: match_spaces_def drop_takeWhile_length)

lemma collapse_spaces_Cons:
  "collapse_spaces (c # cs) =
     (if is_space c then SP # collapse_spaces (dropWhile is_space cs)
      else c # collapse_spaces cs)"
proof (induction cs arbitrary: c)
  case Nil
  show ?case by simp
next
  case (Cons d ds)
  show ?case using Cons[of d] by (auto simp: is_space_SP)
qed


lemma replace_spaces_collapse: "replace_global match_spaces [SP] s = collapse_spaces s"
proof (induction s rule: length_induct)
  case (1 s)
  show ?case
  proof (cases s)
    case Nil
    then show ?thesis by simp
  next
    case (Cons c cs)
    have "length (dropWhile is_space cs) < length s"
      using Cons length_dropWhile_le[of is_space cs] by simp
    moreover have "length cs < length s" using Cons by simp
    ultimately show ?thesis
      using 1 Cons by (simp only: replace_spaces_Cons collapse_spaces_Cons)
  qed
qed

lemma collapse_starts_space:
  "collapse_spaces s \<noteq> [] \<Longrightarrow> is_space (hd (collapse_spaces s)) = is_space (hd s)"
  by (cases s) (auto simp: collapse_spaces_Cons is_space_SP)

lemma collapse_Nil_iff: "collapse_spaces s = [] \<longleftrightarrow> s = []"
  by (cases s) (auto simp: collapse_spaces_Cons)

lemma dropWhile_collapse:
  "dropWhile is_space (collapse_spaces s) = collapse_spaces (dropWhile is_space s)"
proof (cases s)
  case Nil
  then show ?thesis by simp
next
  case (Cons c cs)
  show ?thesis
  proof (cases "is_space c")
    case False
    then show ?thesis using Cons by (simp add: collapse_spaces_Cons)
  next
    case True
    let ?r = "dropWhile is_space cs"
    have "dropWhile is_space (collapse_spaces ?r) = collapse_spaces ?r"
    proof (cases ?r)
      case Nil
      show ?thesis unfolding Nil by simp
    next
      case inner: (Cons d ds)
      then have "\<not> is_space d" using hd_dropWhile[of is_space cs] by auto
      then show ?thesis unfolding inner by (simp add: collapse_spaces_Cons)
    qed
    moreover have "collapse_spaces s = SP # collapse_spaces ?r"
      using Cons True by (simp only: collapse_spaces_Cons if_True)
    moreover have "dropWhile is_space s = ?r"
      using Cons True by simp
    ultimately show ?thesis by (simp only: dropWhile.simps is_space_SP if_True)
  qed
qed

lemma dropWhile_drop_prefix:
  "\<forall>x \<in> set (take n s). P x \<Longrightarrow> dropWhile P (drop n s) = dropWhile P s"
proof (induction s arbitrary: n)
  case Nil
  then show ?case by simp
next
  case (Cons a s)
  then show ?case by (cases n) auto
qed

lemma match_newlines_spaces:
  "\<forall>x \<in> set (take (match_newlines s) s). is_space x"
proof -
  have tw: "\<forall>x \<in> set (takeWhile (\<lambda>x. x = LF) r). is_space x" for r
    by (auto dest: set_takeWhileD simp: is_space_LF)
  have tk: "take (length (takeWhile (\<lambda>x. x = LF) r)) r = takeWhile (\<lambda>x. x = LF) r" for r
    by (induction r) auto
  show ?thesis
  proof (cases s)
    case Nil
    then show ?thesis by (simp add: match_newlines_def)
  next
    case (Cons c cs)
    show ?thesis
    proof (cases "c = CR")
      case True
      then show ?thesis using Cons tw[of cs] tk[of cs]
        by (auto simp: match_newlines_def Let_def is_space_CR)
    next
      case False
      then show ?thesis using Cons tw[of s] tk[of s]
        by (auto simp: match_newlines_def Let_def)
    qed
  qed
qed


lemma collapse_replace_newlines:
  "collapse_spaces (replace_global match_newlines [SP] s) = collapse_spaces s"
proof (induction s rule: length_induct)
  case (1 s)
  show ?case
  proof (cases s)
    case Nil
    then show ?thesis by simp
  next
    case (Cons c cs)
    show ?thesis
    proof (cases "match_newlines s = 0")
      case True
      have ih: "collapse_spaces (replace_global match_newlines [SP] cs) = collapse_spaces cs"
        using 1 Cons by simp
      have "collapse_spaces (dropWhile is_space (replace_global match_newlines [SP] cs))
            = collapse_spaces (dropWhile is_space cs)"
        using ih by (simp add: dropWhile_collapse[symmetric])
      then show ?thesis using True Cons ih by (simp add: collapse_spaces_Cons)
    next
      case False
      let ?n = "match_newlines s"
      let ?rest = "drop ?n s"
      have pre: "\<forall>x \<in> set (take ?n s). is_space x" by (rule match_newlines_spaces)
      have "0 < ?n" using False by simp
      then have c: "is_space c" using pre Cons by (cases ?n) auto
      have "length ?rest < length s" using False Cons by simp
      then have ih: "collapse_spaces (replace_global match_newlines [SP] ?rest) = collapse_spaces ?rest"
        using 1 by simp
      have "collapse_spaces (dropWhile is_space (replace_global match_newlines [SP] ?rest))
            = collapse_spaces (dropWhile is_space ?rest)"
        using ih by (simp add: dropWhile_collapse[symmetric])
      moreover have "dropWhile is_space ?rest = dropWhile is_space cs"
        using dropWhile_drop_prefix[OF pre] c Cons by simp
      ultimately show ?thesis using False Cons c
        by (simp add: collapse_spaces_Cons is_space_SP)
    qed
  qed
qed


lemma collapse_only_SP: "c \<in> set (collapse_spaces s) \<Longrightarrow> is_space c \<Longrightarrow> c = SP"
  by (induction s rule: collapse_spaces.induct) (auto split: if_splits)

lemma collapse_set_nonspace:
  "filter (\<lambda>c. \<not> is_space c) (collapse_spaces s) = filter (\<lambda>c. \<not> is_space c) s"
  by (induction s rule: collapse_spaces.induct) (auto simp: is_space_SP)

lemma no_double_Cons:
  "no_double (c # t) \<longleftrightarrow> (t = [] \<or> \<not> (is_space c \<and> is_space (hd t))) \<and> no_double t"
  by (cases t) auto

lemma collapse_no_double: "no_double (collapse_spaces s)"
proof (induction s rule: length_induct)
  case (1 s)
  show ?case
  proof (cases s)
    case Nil
    then show ?thesis by simp
  next
    case (Cons c cs)
    let ?r = "dropWhile is_space cs"
    have r: "?r = [] \<or> \<not> is_space (hd ?r)"
      using hd_dropWhile[of is_space cs] by auto
    have "length ?r < length s" using Cons length_dropWhile_le[of is_space cs] by simp
    then have ihr: "no_double (collapse_spaces ?r)" using 1 by simp
    have ihc: "no_double (collapse_spaces cs)" using 1 Cons by simp
    show ?thesis
    proof (cases "is_space c")
      case True
      have "collapse_spaces ?r = [] \<or> \<not> is_space (hd (collapse_spaces ?r))"
        using r collapse_starts_space[of ?r] by (auto simp: collapse_Nil_iff)
      then show ?thesis using Cons True ihr
        by (simp only: collapse_spaces_Cons if_True no_double_Cons) simp
    next
      case False
      then show ?thesis using Cons ihc
        by (simp only: collapse_spaces_Cons if_False no_double_Cons) simp
    qed
  qed
qed

lemma collapse_fixed:
  "\<forall>c \<in> set t. is_space c \<longrightarrow> c = SP \<Longrightarrow> no_double t \<Longrightarrow> collapse_spaces t = t"
  by (induction t rule: collapse_spaces.induct) auto

lemma replace_nbsp_fixed: "NBSP \<notin> set t \<Longrightarrow> replace_global match_nbsp [SP] t = t"
  by (induction t) (auto simp: match_nbsp_def)

lemma no_double_append: "no_double (xs @ ys) \<Longrightarrow> no_double xs \<and> no_double ys"
proof (induction xs)
  case Nil
  then show ?case by simp
next
  case (Cons a xs)
  have "no_double (xs @ ys)"
    using Cons.prems by (simp add: no_double_Cons del: no_double.simps)
  then have ih: "no_double xs \<and> no_double ys" by (rule Cons.IH)
  have "xs = [] \<or> \<not> (is_space a \<and> is_space (hd xs))"
    using Cons.prems by (cases xs) auto
  then show ?case using ih by (simp only: no_double_Cons)
qed

lemma rev_dropWhile_rev_decomp:
  "u = rev (dropWhile P (rev u)) @ rev (takeWhile P (rev u))"
proof -
  have "rev (rev u) = rev (takeWhile P (rev u) @ dropWhile P (rev u))"
    by (simp only: takeWhile_dropWhile_id)
  then show ?thesis by (simp only: rev_rev_ident rev_append)
qed

lemma trim_decomp: "\<exists>pre post. t = pre @ trim t @ post"
proof -
  let ?u = "dropWhile is_space t"
  have "t = takeWhile is_space t @ ?u" by simp
  moreover have "?u = trim t @ rev (takeWhile is_space (rev ?u))"
    unfolding trim_def by (rule rev_dropWhile_rev_decomp)
  ultimately have "t = takeWhile is_space t @ trim t @ rev (takeWhile is_space (rev ?u))"
    by simp
  then show ?thesis by blast
qed

lemma trim_set: "set (trim t) \<subseteq> set t"
  using trim_decomp[of t] by (metis Un_iff set_append subsetI)

lemma trim_no_double: "no_double t \<Longrightarrow> no_double (trim t)"
  using trim_decomp[of t] no_double_append by metis

lemma last_dropWhile: "dropWhile P xs \<noteq> [] \<Longrightarrow> last (dropWhile P xs) = last xs"
  by (induction xs) (auto split: if_splits)

lemma trim_ends: "trim t \<noteq> [] \<Longrightarrow> \<not> is_space (hd (trim t)) \<and> \<not> is_space (last (trim t))"
proof -
  assume ne: "trim t \<noteq> []"
  let ?u = "dropWhile is_space t"
  let ?v = "dropWhile is_space (rev ?u)"
  have v: "?v \<noteq> []" using ne by (simp add: trim_def)
  then have hv: "\<not> is_space (hd ?v)" using hd_dropWhile[of is_space "rev ?u"] by blast
  have l: "last (trim t) = hd ?v" using v by (simp only: trim_def last_rev)
  have u: "?u \<noteq> []"
  proof
    assume "?u = []"
    then have "?v = []" by (simp only: rev.simps dropWhile.simps)
    then show False using v by simp
  qed
  then have hu: "\<not> is_space (hd ?u)" using hd_dropWhile[of is_space t] by blast
  have "hd (trim t) = last ?v" using v by (simp only: trim_def hd_rev)
  also have "\<dots> = last (rev ?u)" using v by (rule last_dropWhile)
  also have "\<dots> = hd ?u" using u by (simp only: last_rev)
  finally show ?thesis using hu l hv by simp
qed

lemma trim_fixed: "t = [] \<or> (\<not> is_space (hd t) \<and> \<not> is_space (last t)) \<Longrightarrow> trim t = t"
proof (cases t)
  case Nil
  then show ?thesis by (simp add: trim_def)
next
  case (Cons c cs)
  assume "t = [] \<or> (\<not> is_space (hd t) \<and> \<not> is_space (last t))"
  then have h: "\<not> is_space (hd t)" and l: "\<not> is_space (last t)" using Cons by auto
  have 1: "dropWhile is_space t = t" using h Cons by simp
  have ne: "rev t \<noteq> []" using Cons by simp
  have "hd (rev t) = last t" using Cons by (simp add: hd_rev)
  then have "\<not> is_space (hd (rev t))" using l by simp
  then have "dropWhile is_space (rev t) = rev t"
    using ne by (simp only: dropWhile_eq_self_iff) simp
  then show ?thesis using 1 by (simp add: trim_def)
qed

lemma normalizeText_canonicalize: "normalizeText s = canonicalize s"
proof -
  have 1: "replace_global match_spaces [SP] (replace_global match_newlines [SP] s) = collapse_spaces s"
    by (simp only: replace_spaces_collapse collapse_replace_newlines)
  have "NBSP \<notin> set (collapse_spaces s)"
    using collapse_only_SP[of NBSP s] is_space_NBSP NBSP_not_SP by blast
  then have "replace_global match_nbsp [SP] (collapse_spaces s) = collapse_spaces s"
    by (rule replace_nbsp_fixed)
  then show ?thesis by (simp only: normalizeText_def canonicalize_def 1)
qed

lemma canonicalize_only_SP: "c \<in> set (canonicalize s) \<Longrightarrow> is_space c \<Longrightarrow> c = SP"
  using trim_set[of "collapse_spaces s"] collapse_only_SP[of c s]
  by (auto simp: canonicalize_def)

lemma canonicalize_no_double: "no_double (canonicalize s)"
  unfolding canonicalize_def by (rule trim_no_double) (rule collapse_no_double)

lemma canonicalize_ends:
  "canonicalize s \<noteq> [] \<Longrightarrow> \<not> is_space (hd (canonicalize s)) \<and> \<not> is_space (last (canonicalize s))"
  unfolding canonicalize_def by (rule trim_ends)

lemma canonicalize_idem: "canonicalize (canonicalize s) = canonicalize s"
proof -
  let ?t = "canonicalize s"
  have "collapse_spaces ?t = ?t"
    using canonicalize_only_SP[of _ s] canonicalize_no_double[of s]
    by (intro collapse_fixed) auto
  moreover have "trim ?t = ?t"
    using canonicalize_ends[of s] by (intro trim_fixed) auto
  ultimately show ?thesis by (simp add: canonicalize_def[of ?t])
qed

lemma no_double_nth:
  "no_double t \<Longrightarrow> Suc i < length t \<Longrightarrow> \<not> (is_space (t ! i) \<and> is_space (t ! Suc i))"
proof (induction t arbitrary: i rule: no_double.induct)
  case (1 c d cs)
  then show ?case by (cases i) auto
qed auto

lemma filter_trim:
  "filter (\<lambda>c. \<not> is_space c) (trim t) = filter (\<lambda>c. \<not> is_space c) t"
proof -
  have a: "filter (\<lambda>c. \<not> is_space c) (dropWhile is_space u) = filter (\<lambda>c. \<not> is_space c) u" for u
    by (induction u) auto
  have "filter (\<lambda>c. \<not> is_space c) (trim t)
        = rev (filter (\<lambda>c. \<not> is_space c) (dropWhile is_space (rev (dropWhile is_space t))))"
    by (simp only: trim_def rev_filter)
  also have "\<dots> = rev (filter (\<lambda>c. \<not> is_space c) (rev (dropWhile is_space t)))"
    by (simp only: a)
  also have "\<dots> = filter (\<lambda>c. \<not> is_space c) (dropWhile is_space t)"
    by (simp only: rev_filter rev_rev_ident)
  finally show ?thesis by (simp only: a)
qed

subsection \<open>The two loops of the diff\<close>


lemma Map_has_get: "Map_has m k \<longleftrightarrow> Map_get m k \<noteq> None"
  by (simp add: Map_has_def Map_get_def map_of_eq_None_iff)

lemma Map_get_distinct: "distinct (map fst m) \<Longrightarrow> Map_get m k = Some v \<longleftrightarrow> (k, v) \<in> set m"
  by (simp add: Map_get_def)

lemma snapshot_distinct: "snapshot m \<Longrightarrow> distinct (map fst m)"
  by (simp add: snapshot_def)

lemma snapshot_key: "snapshot m \<Longrightarrow> (k, c) \<in> set m \<Longrightarrow> id' c = k"
  by (auto simp: snapshot_def list_all_iff)

lemma snapshot_get: "snapshot m \<Longrightarrow> Map_get m k = Some c \<longleftrightarrow> (k, c) \<in> set m"
  by (simp add: Map_get_distinct snapshot_distinct)

lemma snapshot_get_id: "snapshot m \<Longrightarrow> Map_get m k = Some c \<Longrightarrow> id' c = k"
  using snapshot_get snapshot_key by blast

lemma compare_current_eq:
  "compare_current prev es d =
     d\<lparr>added := added d @ map snd (filter (\<lambda>(k, c). Map_get prev k = None) es),
       changed := changed d @ changes_of prev es\<rparr>"
  by (induction prev es d rule: compare_current.induct) (auto simp: changes_of_def split: option.splits)

lemma compare_previous_eq:
  "compare_previous cur es d =
     d\<lparr>removed := removed d @ map snd (filter (\<lambda>(k, p). \<not> Map_has cur k) es)\<rparr>"
  by (induction cur es d rule: compare_previous.induct) auto

lemma compareCourses_eq:
  "compareCourses prev cur =
     \<lparr>added = map snd (filter (\<lambda>(k, c). Map_get prev k = None) cur),
      changed = changes_of prev cur,
      removed = map snd (filter (\<lambda>(k, p). \<not> Map_has cur k) prev)\<rparr>"
  by (simp add: compareCourses_def Map_entries_def compare_current_eq compare_previous_eq)

lemma changes_of_set:
  "ch \<in> set (changes_of prev es) \<longleftrightarrow>
     (\<exists>k. (k, after ch) \<in> set es \<and> Map_get prev k = Some (before ch) \<and> hash (before ch) \<noteq> hash (after ch))"
  by (induction es) (auto simp: changes_of_def split: option.splits if_splits)

lemma changes_of_Nil: "changes_of prev [] = []"
  by (simp add: changes_of_def)

lemma changes_of_Cons:
  "changes_of prev ((k, c) # es) =
     (case Map_get prev k of
        None \<Rightarrow> []
      | Some p \<Rightarrow> if hash p \<noteq> hash c then [\<lparr>before = p, after = c\<rparr>] else []) @ changes_of prev es"
  by (simp add: changes_of_def)

lemma unchanged_Nil: "unchanged prev [] = []"
  by (simp add: unchanged_def)

lemma unchanged_Cons:
  "unchanged prev ((k, c) # es) =
     (case Map_get prev k of
        None \<Rightarrow> []
      | Some p \<Rightarrow> if hash p = hash c then [k] else []) @ unchanged prev es"
  by (simp add: unchanged_def split: option.splits)

lemma length_three_way:
  "length (filter (\<lambda>(k, c). Map_get prev k = None) es) + length (changes_of prev es)
     + length (unchanged prev es) = length es"
proof (induction es)
  case Nil
  show ?case by (simp add: changes_of_Nil unchanged_Nil)
next
  case (Cons e es)
  obtain k c where e: "e = (k, c)" by (cases e)
  show ?case
  proof (cases "Map_get prev k")
    case None
    then show ?thesis using Cons by (simp add: e changes_of_Cons unchanged_Cons)
  next
    case (Some p)
    then show ?thesis using Cons by (simp add: e changes_of_Cons unchanged_Cons)
  qed
qed

lemma length_common:
  "length (changes_of prev es) + length (unchanged prev es)
     = length (filter (\<lambda>(k, c). Map_has prev k) es)"
proof (induction es)
  case Nil
  show ?case by (simp add: changes_of_Nil unchanged_Nil)
next
  case (Cons e es)
  obtain k c where e: "e = (k, c)" by (cases e)
  show ?case
  proof (cases "Map_get prev k")
    case None
    then show ?thesis using Cons by (simp add: e changes_of_Cons unchanged_Cons Map_has_get)
  next
    case (Some p)
    then show ?thesis using Cons by (simp add: e changes_of_Cons unchanged_Cons Map_has_get)
  qed
qed

lemma length_filter_mem:
  assumes "distinct xs" "distinct ys"
  shows "length (filter (\<lambda>x. x \<in> set ys) xs) = length (filter (\<lambda>y. y \<in> set xs) ys)"
proof -
  have "length (filter (\<lambda>x. x \<in> set ys) xs) = card (set ys \<inter> set xs)"
    using assms(1) distinct_length_filter[of xs "\<lambda>x. x \<in> set ys"] by (simp add: Collect_mem_eq)
  moreover have "length (filter (\<lambda>y. y \<in> set xs) ys) = card (set xs \<inter> set ys)"
    using assms(2) distinct_length_filter[of ys "\<lambda>y. y \<in> set xs"] by (simp add: Collect_mem_eq)
  ultimately show ?thesis by (simp add: Int_commute)
qed

lemma length_filter_has:
  "length (filter (\<lambda>(k, c). Map_has m k) es) = length (filter (\<lambda>k. k \<in> set (map fst m)) (map fst es))"
proof -
  have eq: "(\<lambda>(k, c). Map_has m k) = (\<lambda>k. k \<in> set (map fst m)) \<circ> fst"
    by (auto simp: Map_has_def fun_eq_iff)
  show ?thesis unfolding eq filter_map by simp
qed

lemma length_filter_has_not:
  "length (filter (\<lambda>(k, c). \<not> Map_has m k) es) + length (filter (\<lambda>(k, c). Map_has m k) es) = length es"
  by (induction es) auto

lemma common_sym:
  assumes "distinct (map fst prev)" "distinct (map fst cur)"
  shows "length (filter (\<lambda>(k, c). Map_has prev k) cur) = length (filter (\<lambda>(k, p). Map_has cur k) prev)"
  using length_filter_mem[OF assms(2) assms(1)] by (simp add: length_filter_has)


lemma added_set:
  assumes "snapshot cur"
  shows "c \<in> set (added (compareCourses prev cur)) \<longleftrightarrow>
           (\<exists>k. Map_get cur k = Some c \<and> Map_get prev k = None)"
  using assms by (auto simp: compareCourses_eq snapshot_get image_iff) 

lemma removed_set:
  assumes "snapshot prev"
  shows "p \<in> set (removed (compareCourses prev cur)) \<longleftrightarrow>
           (\<exists>k. Map_get prev k = Some p \<and> Map_get cur k = None)"
  using assms by (auto simp: compareCourses_eq snapshot_get Map_has_get image_iff)

lemma changed_set:
  assumes "snapshot cur"
  shows "ch \<in> set (changed (compareCourses prev cur)) \<longleftrightarrow>
           (\<exists>k. Map_get cur k = Some (after ch) \<and> Map_get prev k = Some (before ch)
                \<and> hash (before ch) \<noteq> hash (after ch))"
  using assms by (simp add: compareCourses_eq changes_of_set snapshot_get)

subsection \<open>The ids of the diff\<close>


lemma keyed_map_id:
  assumes "list_all (\<lambda>(k, c). id' c = k) es"
  shows "map id' (map snd (filter P es)) = map fst (filter P es)"
proof -
  have "\<forall>x \<in> set es. id' (snd x) = fst x"
    using assms by (simp add: list_all_iff split_beta)
  then have "\<forall>x \<in> set (filter P es). (id' \<circ> snd) x = fst x" by simp
  then have "map (id' \<circ> snd) (filter P es) = map fst (filter P es)"
    by (simp only: map_eq_conv)
  then show ?thesis by (simp only: map_map)
qed


lemma keyed_changes_id:
  "list_all (\<lambda>(k, c). id' c = k) es \<Longrightarrow>
     map (\<lambda>ch. id' (after ch)) (changes_of prev es)
       = map fst (filter (\<lambda>(k, c). case Map_get prev k of None \<Rightarrow> False | Some p \<Rightarrow> hash p \<noteq> hash c) es)"
proof (induction es)
  case Nil
  show ?case by (simp add: changes_of_Nil)
next
  case (Cons e es)
  obtain k c where e: "e = (k, c)" by (cases e)
  show ?case using Cons by (cases "Map_get prev k") (simp_all add: e changes_of_Cons)
qed

lemma filter_keys_disjoint:
  assumes "distinct (map fst es)" and "\<And>x. x \<in> set es \<Longrightarrow> \<not> (P x \<and> Q x)"
  shows "set (map fst (filter P es)) \<inter> set (map fst (filter Q es)) = {}"
proof (rule ccontr)
  assume "set (map fst (filter P es)) \<inter> set (map fst (filter Q es)) \<noteq> {}"
  then obtain k where "k \<in> set (map fst (filter P es))" "k \<in> set (map fst (filter Q es))" by blast
  then obtain a b where a: "(k, a) \<in> set es" "P (k, a)" and b: "(k, b) \<in> set es" "Q (k, b)"
    by auto
  have "a = b" using assms(1) a(1) b(1) by (rule eq_key_imp_eq_value)
  then show False using assms(2)[OF a(1)] a(2) b(2) by simp
qed

lemma filter_keys_distinct: "distinct (map fst es) \<Longrightarrow> distinct (map fst (filter P es))"
  by (simp add: distinct_map_filter)


lemma snapshot_keyed: "snapshot m \<Longrightarrow> list_all (\<lambda>(k, c). id' c = k) m"
  by (simp add: snapshot_def)

lemma same_snapshot_empty:
  assumes "snapshot s"
  shows "compareCourses s s = \<lparr>added = [], changed = [], removed = []\<rparr>"
proof -
  have d: "distinct (map fst s)" using assms by (rule snapshot_distinct)
  have g: "Map_get s k = Some c" if "(k, c) \<in> set s" for k c
    using that d by (simp add: Map_get_distinct)
  have a: "filter (\<lambda>(k, c). Map_get s k = None) s = []"
    using g by (auto simp: filter_empty_conv)
  have r: "filter (\<lambda>(k, p). \<not> Map_has s k) s = []"
    using g by (auto simp: filter_empty_conv Map_has_get)
  have c: "changes_of s s = []"
  proof (cases "changes_of s s")
    case Nil
    then show ?thesis .
  next
    case (Cons ch rest)
    then have "ch \<in> set (changes_of s s)" by simp
    then obtain k where k: "(k, after ch) \<in> set s" "Map_get s k = Some (before ch)"
        "hash (before ch) \<noteq> hash (after ch)"
      using changes_of_set[of ch s s] by blast
    have "Map_get s k = Some (after ch)" using k(1) by (rule g)
    then have "before ch = after ch" using k(2) by simp
    then show ?thesis using k(3) by simp
  qed
  show ?thesis by (simp add: compareCourses_eq a r c)
qed

lemma four_way_union:
  "A \<union> C \<union> U = K2 \<Longrightarrow> R = K1 - K2 \<Longrightarrow> A \<union> C \<union> R \<union> U = K1 \<union> K2"
  by blast

lemma four_way_distinct:
  assumes "distinct A" "distinct C" "distinct R" "distinct U"
    and "set A \<inter> set C = {}" "set A \<inter> set U = {}" "set C \<inter> set U = {}"
    and "set A \<union> set C \<union> set U = K2" "set R = K1 - K2"
  shows "distinct (A @ C @ R @ U)"
  using assms by auto

lemma three_way_cover:
  assumes "\<And>x. PA x \<or> PC x \<or> PU x"
  shows "set (map fst (filter PA es)) \<union> set (map fst (filter PC es)) \<union> set (map fst (filter PU es))
           = set (map fst es)"
proof -
  have "x \<in> set (filter PA es) \<union> set (filter PC es) \<union> set (filter PU es)" if "x \<in> set es" for x
    using that assms[of x] by (simp only: set_filter Un_iff mem_Collect_eq) blast
  then have "set es = set (filter PA es) \<union> set (filter PC es) \<union> set (filter PU es)"
    by (simp only: set_filter) blast
  then have "fst ` set es
      = fst ` set (filter PA es) \<union> fst ` set (filter PC es) \<union> fst ` set (filter PU es)"
    by (simp only: image_Un[symmetric])
  then show ?thesis by (simp only: set_map)
qed


lemma filter_keys_set:
  "set (map fst (filter (\<lambda>(k, p). \<not> H k) es)) = {k \<in> set (map fst es). \<not> H k}"
  by (induction es) auto

lemma removed_keys:
  "set (map fst (filter (\<lambda>(k, p). \<not> Map_has cur k) prev)) = set (map fst prev) - set (map fst cur)"
  unfolding filter_keys_set by (auto simp: Map_has_def)

subsection \<open>Building a map from entries\<close>


lemma Map_new_Nil: "Map_new [] = []"
  by (simp add: Map_new_def)

lemma Map_set_keys: "set (map fst (Map_set m k v)) = insert k (set (map fst m))"
  by (induction m) auto

lemma Map_set_distinct: "distinct (map fst m) \<Longrightarrow> distinct (map fst (Map_set m k v))"
proof (induction m)
  case Nil
  show ?case by simp
next
  case (Cons e m)
  have "fst e \<notin> set (map fst (Map_set m k v))" if "fst e \<noteq> k"
    using that Cons.prems by (simp only: Map_set_keys) simp
  then show ?case using Cons by auto
qed

lemma Map_set_fresh: "k \<notin> set (map fst m) \<Longrightarrow> Map_set m k v = m @ [(k, v)]"
  by (induction m) auto

lemma Map_get_set: "Map_get (Map_set m k v) k' = (if k' = k then Some v else Map_get m k')"
  by (induction m) (auto simp: Map_get_def)

lemma foldl_Map_set_distinct:
  "distinct (map fst m) \<Longrightarrow> distinct (map fst (foldl (\<lambda>m (k, v). Map_set m k v) m es))"
  by (induction es arbitrary: m) (auto simp: Map_set_distinct split: prod.splits)

lemma foldl_Map_set_get:
  "Map_get (foldl (\<lambda>m (k, v). Map_set m k v) m es) k
     = (case map_of (rev es) k of None \<Rightarrow> Map_get m k | Some v \<Rightarrow> Some v)"
proof (induction es arbitrary: m)
  case Nil
  show ?case by simp
next
  case (Cons e es)
  obtain a b where e: "e = (a, b)" by (cases e)
  show ?case
    by (simp add: Cons e Map_get_set map_of_append map_add_def split: option.splits)
qed

lemma foldl_Map_set_fresh:
  "distinct (map fst (m @ es)) \<Longrightarrow> foldl (\<lambda>m (k, v). Map_set m k v) m es = m @ es"
proof (induction es arbitrary: m)
  case Nil
  show ?case by simp
next
  case (Cons e es)
  obtain a b where e: "e = (a, b)" by (cases e)
  have "a \<notin> set (map fst m)" using Cons.prems e by auto
  then have s: "Map_set m a b = m @ [(a, b)]" by (rule Map_set_fresh)
  have "distinct (map fst ((m @ [(a, b)]) @ es))" using Cons.prems e by simp
  then have "foldl (\<lambda>m (k, v). Map_set m k v) (m @ [(a, b)]) es = (m @ [(a, b)]) @ es"
    by (rule Cons.IH)
  then show ?case by (simp add: e s)
qed

lemma Map_new_distinct: "distinct (map fst (Map_new es))"
  unfolding Map_new_def by (rule foldl_Map_set_distinct) simp

lemma Map_new_get: "Map_get (Map_new es) k = map_of (rev es) k"
proof -
  have "Map_get (Map_new es) k = (case map_of (rev es) k of None \<Rightarrow> Map_get [] k | Some v \<Rightarrow> Some v)"
    unfolding Map_new_def by (rule foldl_Map_set_get)
  then show ?thesis by (simp add: Map_get_def split: option.splits)
qed

lemma Map_new_fresh: "distinct (map fst es) \<Longrightarrow> Map_new es = es"
  using foldl_Map_set_fresh[of "[]" es] by (simp add: Map_new_def)

lemma Map_set_map:
  assumes "inj f"
  shows "map (\<lambda>(k, v). (f k, g v)) (Map_set m k v) = Map_set (map (\<lambda>(k, v). (f k, g v)) m) (f k) (g v)"
  using assms by (induction m) (auto simp: inj_eq)

lemma foldl_Map_set_map:
  assumes "inj f"
  shows "map (\<lambda>(k, v). (f k, g v)) (foldl (\<lambda>m (k, v). Map_set m k v) m es)
       = foldl (\<lambda>m (k, v). Map_set m k v) (map (\<lambda>(k, v). (f k, g v)) m) (map (\<lambda>(k, v). (f k, g v)) es)"
proof (induction es arbitrary: m)
  case Nil
  show ?case by simp
next
  case (Cons e es)
  obtain a b where e: "e = (a, b)" by (cases e)
  show ?case by (simp add: e Cons Map_set_map[OF assms])
qed

lemma Map_new_map:
  "inj f \<Longrightarrow> map (\<lambda>(k, v). (f k, g v)) (Map_new es) = Map_new (map (\<lambda>(k, v). (f k, g v)) es)"
  by (simp add: Map_new_def foldl_Map_set_map)

lemma stored_snapshot_of:
  "stored (snapshot_of cs) = Map_new (map (\<lambda>c. (KeyStr (id' c), course_val c)) cs)"
proof -
  have "inj KeyStr" by (simp add: inj_def)
  then have "stored (snapshot_of cs)
      = Map_new (map (\<lambda>(k, c). (KeyStr k, course_val c)) (map (\<lambda>c. (id' c, c)) cs))"
    unfolding stored_def snapshot_of_def by (rule Map_new_map)
  then show ?thesis by (simp add: comp_def)
qed

lemma snapshot_of_get: "Map_get (snapshot_of cs) k = find (\<lambda>c. id' c = k) (rev cs)"
proof -
  have "map_of (map (\<lambda>c. (id' c, c)) xs) k = find (\<lambda>c. id' c = k) xs" for xs
    by (induction xs) auto
  then show ?thesis by (simp add: snapshot_of_def Map_new_get rev_map)
qed

lemma snapshot_of_distinct:
  "distinct (map id' cs) \<Longrightarrow> snapshot_of cs = map (\<lambda>c. (id' c, c)) cs"
  unfolding snapshot_of_def by (rule Map_new_fresh) (simp add: comp_def)

lemma snapshot_snapshot_of: "snapshot (snapshot_of cs)"
proof -
  have "list_all (\<lambda>(k, c). id' c = k) (foldl (\<lambda>m (k, v). Map_set m k v) m (map (\<lambda>c. (id' c, c)) xs))"
    if "list_all (\<lambda>(k, c). id' c = k) m" for m xs
    using that
  proof (induction xs arbitrary: m)
    case Nil
    then show ?case by simp
  next
    case (Cons x xs)
    have "list_all (\<lambda>(k, c). id' c = k) (Map_set m (id' x) x)"
      using Cons.prems by (induction m) (simp_all split: prod.splits)
    then show ?case using Cons.IH by simp
  qed
  from this[of "[]" cs] show ?thesis
    by (simp add: snapshot_def snapshot_of_def Map_new_distinct) (simp add: Map_new_def)
qed

subsection \<open>Courses as stored values\<close>


lemma get_id_course_val: "get_id (course_val c) = Inr (JStr (id' c))"
  by (simp add: get_id_def course_val_def)

lemma id_entry_course_val: "id_entry i (course_val c) = Inr (KeyStr (id' c), course_val c)"
  by (simp add: id_entry_def get_id_course_val key_of_def)

lemma map_elements_course_val:
  "map_elements id_entry i (map course_val cs) = Inr (map (\<lambda>c. (KeyStr (id' c), course_val c)) cs)"
  by (induction cs arbitrary: i) (simp_all add: id_entry_course_val)

lemma js_names_distinct:
  "distinct [js ''id'', js ''title'', js ''instructor'', js ''term'', js ''dayPeriod'',
             js ''room'', js ''updatedAt'', js ''bodyText'', js ''detailUrl'', js ''hash'']"
  by (simp add: js_def)

lemma course_of_val_course_val: "course_of_val (course_val c) = Some c"
proof -
  obtain r u where ru: "room c = r" "updatedAt c = u" by simp
  have n: "js ''id'' \<noteq> js ''title''" "js ''id'' \<noteq> js ''instructor''" "js ''id'' \<noteq> js ''term''"
    "js ''id'' \<noteq> js ''dayPeriod''" "js ''id'' \<noteq> js ''room''" "js ''id'' \<noteq> js ''updatedAt''"
    "js ''id'' \<noteq> js ''bodyText''" "js ''id'' \<noteq> js ''detailUrl''" "js ''id'' \<noteq> js ''hash''"
    "js ''title'' \<noteq> js ''instructor''" "js ''title'' \<noteq> js ''term''"
    "js ''title'' \<noteq> js ''dayPeriod''" "js ''title'' \<noteq> js ''room''" "js ''title'' \<noteq> js ''updatedAt''"
    "js ''title'' \<noteq> js ''bodyText''" "js ''title'' \<noteq> js ''detailUrl''" "js ''title'' \<noteq> js ''hash''"
    "js ''instructor'' \<noteq> js ''term''"
    "js ''instructor'' \<noteq> js ''dayPeriod''" "js ''instructor'' \<noteq> js ''room''" "js ''instructor'' \<noteq> js ''updatedAt''"
    "js ''instructor'' \<noteq> js ''bodyText''" "js ''instructor'' \<noteq> js ''detailUrl''" "js ''instructor'' \<noteq> js ''hash''"
    "js ''term'' \<noteq> js ''dayPeriod''" "js ''term'' \<noteq> js ''room''" "js ''term'' \<noteq> js ''updatedAt''"
    "js ''term'' \<noteq> js ''bodyText''" "js ''term'' \<noteq> js ''detailUrl''" "js ''term'' \<noteq> js ''hash''"
    "js ''dayPeriod'' \<noteq> js ''room''" "js ''dayPeriod'' \<noteq> js ''updatedAt''"
    "js ''dayPeriod'' \<noteq> js ''bodyText''" "js ''dayPeriod'' \<noteq> js ''detailUrl''" "js ''dayPeriod'' \<noteq> js ''hash''"
    "js ''room'' \<noteq> js ''updatedAt''"
    "js ''room'' \<noteq> js ''bodyText''" "js ''room'' \<noteq> js ''detailUrl''" "js ''room'' \<noteq> js ''hash''"
    "js ''updatedAt'' \<noteq> js ''bodyText''" "js ''updatedAt'' \<noteq> js ''detailUrl''" "js ''updatedAt'' \<noteq> js ''hash''"
    "js ''bodyText'' \<noteq> js ''detailUrl''" "js ''bodyText'' \<noteq> js ''hash''"
    "js ''detailUrl'' \<noteq> js ''hash''"
    using js_names_distinct by simp_all
  show ?thesis
    by (cases "room c"; cases "updatedAt c")
       (simp_all add: course_of_val_def course_val_def str_prop_def optional_prop_def n n[symmetric])
qed

subsection \<open>The failures of the load\<close>


lemma load_body_missing: "files fs p = None \<Longrightarrow> load_body fs p = Inl SystemError"
  by (simp add: load_body_def readFileSync_def)

lemma load_body_malformed: "files fs p = Some Malformed \<Longrightarrow> load_body fs p = Inl SyntaxError"
  by (simp add: load_body_def readFileSync_def JSON_parse_def)

lemma load_body_no_array:
  "files fs p = Some (Json v) \<Longrightarrow> \<forall>xs. v \<noteq> JArr xs \<Longrightarrow> load_body fs p = Inl TypeError"
  by (cases v) (simp_all add: load_body_def readFileSync_def JSON_parse_def array_map_def)

lemma map_elements_null:
  "JNull \<in> set xs \<Longrightarrow> \<exists>e. map_elements id_entry i xs = Inl e"
proof (induction xs arbitrary: i)
  case Nil
  then show ?case by simp
next
  case (Cons x xs)
  show ?case
  proof (cases "x = JNull")
    case True
    then show ?thesis by (simp add: id_entry_def get_id_def)
  next
    case False
    then have "JNull \<in> set xs" using Cons.prems by simp
    then obtain e where "map_elements id_entry (Suc i) xs = Inl e" using Cons.IH by blast
    then show ?thesis by (cases "id_entry i x") simp_all
  qed
qed

lemma load_body_null_element:
  "files fs p = Some (Json (JArr xs)) \<Longrightarrow> JNull \<in> set xs \<Longrightarrow> \<exists>e. load_body fs p = Inl e"
  using map_elements_null[of xs 0]
  by (auto simp: load_body_def readFileSync_def JSON_parse_def array_map_def)

lemma loadPrev_caught: "load_body fs p = Inl e \<Longrightarrow> loadPrev fs p = Inr []"
  by (simp add: loadPrev_def Map_new_Nil)


text \<open>
  An array whose elements are no records parses and maps without an exception, so it is
  not caught: the numbers \<^verbatim>\<open>[1, 2]\<close> load as the map with the one key \<^verbatim>\<open>undefined\<close>.
\<close>

lemma loadPrev_array_of_numbers:
  "files fs p = Some (Json (JArr [JNum 1, JNum 2])) \<Longrightarrow> loadPrev fs p = Inr [(KeyUndefined, JNum 2)]"
  by (simp add: loadPrev_def load_body_def readFileSync_def JSON_parse_def array_map_def
      id_entry_def get_id_def key_of_def Map_new_def)

subsection \<open>What the save writes\<close>


lemma writeFileSync_files:
  "writeFileSync fs p t = Inr fs' \<Longrightarrow> files fs' p = Some t"
  by (auto simp: writeFileSync_def split: if_splits)

lemma saveCurr_files:
  "saveCurr fs p cs = Inr fs' \<Longrightarrow> files fs' p = Some (JSON_stringify cs)"
  by (auto simp: saveCurr_def Let_def split: sum.splits dest: writeFileSync_files)

lemma load_body_stringify:
  "files fs p = Some (JSON_stringify cs) \<Longrightarrow> load_body fs p = Inr (stored (snapshot_of cs))"
  by (simp add: load_body_def readFileSync_def JSON_parse_def JSON_stringify_def array_map_def
      map_elements_course_val stored_snapshot_of)

subsection \<open>The worker pool: measure and progress\<close>



lemma in_flight_update:
  assumes "w < length ws"
  shows "mset (in_flight (ws[w := x])) + mset (in_flight [ws ! w])
           = mset (in_flight ws) + mset (in_flight [x])"
proof -
  have a: "ws = take w ws @ ws ! w # drop (Suc w) ws"
    using assms by (rule id_take_nth_drop)
  have b: "ws[w := x] = take w ws @ x # drop (Suc w) ws"
    using assms by (rule upd_conv_take_nth_drop)
  have "mset (in_flight ws) = mset (in_flight (take w ws)) + mset (in_flight [ws ! w])
          + mset (in_flight (drop (Suc w) ws))"
    by (subst a) (simp add: in_flight_def)
  moreover have "mset (in_flight (ws[w := x])) = mset (in_flight (take w ws)) + mset (in_flight [x])
          + mset (in_flight (drop (Suc w) ws))"
    by (subst b) (simp add: in_flight_def)
  ultimately show ?thesis by simp
qed

lemma rank_update:
  assumes "w < length ws"
  shows "sum_list (map rank (ws[w := x])) + rank (ws ! w) = sum_list (map rank ws) + rank x"
proof -
  have a: "ws = take w ws @ ws ! w # drop (Suc w) ws"
    using assms by (rule id_take_nth_drop)
  have b: "ws[w := x] = take w ws @ x # drop (Suc w) ws"
    using assms by (rule upd_conv_take_nth_drop)
  have "sum_list (map rank ws) = sum_list (map rank (take w ws)) + rank (ws ! w)
          + sum_list (map rank (drop (Suc w) ws))"
    by (subst a) simp
  moreover have "sum_list (map rank (ws[w := x])) = sum_list (map rank (take w ws)) + rank x
          + sum_list (map rank (drop (Suc w) ws))"
    by (subst b) simp
  ultimately show ?thesis by simp
qed

lemma records_of_append: "records_of e (xs @ ys) = records_of e xs @ records_of e ys"
  by (simp add: records_of_def)

lemma failures_of_append: "failures_of e (xs @ ys) = failures_of e xs @ failures_of e ys"
  by (simp add: failures_of_def)

lemma records_of_single:
  "records_of e [item] = (case page_detail e (stub.url item) of Inl err \<Rightarrow> [] | Inr d \<Rightarrow> [make_course e item d])"
  by (simp add: records_of_def)

lemma failures_of_single:
  "failures_of e [item] = (case page_detail e (stub.url item) of Inl err \<Rightarrow> [stub.url item] | Inr d \<Rightarrow> [])"
  by (simp add: failures_of_def fetch_ok_def split: sum.splits)

lemma mset_records_of: "mset (records_of e xs) = (\<Sum>x\<in>#mset xs. mset (records_of e [x]))"
  by (induction xs) (simp_all add: records_of_def)

lemma mset_failures_of: "mset (failures_of e xs) = (\<Sum>x\<in>#mset xs. mset (failures_of e [x]))"
  by (induction xs) (simp_all add: failures_of_def)

lemma records_of_perm:
  assumes "mset xs = mset ys"
  shows "mset (records_of e xs) = mset (records_of e ys)"
proof -
  have "mset (records_of e xs) = (\<Sum>x\<in>#mset xs. mset (records_of e [x]))"
    by (rule mset_records_of)
  also have "\<dots> = (\<Sum>x\<in>#mset ys. mset (records_of e [x]))"
    by (simp only: assms)
  also have "\<dots> = mset (records_of e ys)"
    by (rule mset_records_of[symmetric])
  finally show ?thesis .
qed

lemma failures_of_perm:
  assumes "mset xs = mset ys"
  shows "mset (failures_of e xs) = mset (failures_of e ys)"
proof -
  have "mset (failures_of e xs) = (\<Sum>x\<in>#mset xs. mset (failures_of e [x]))"
    by (rule mset_failures_of)
  also have "\<dots> = (\<Sum>x\<in>#mset ys. mset (failures_of e [x]))"
    by (simp only: assms)
  also have "\<dots> = mset (failures_of e ys)"
    by (rule mset_failures_of[symmetric])
  finally show ?thesis .
qed

lemma length_records_of: "length (records_of e xs) = length (filter (fetch_ok e) xs)"
  by (induction xs) (simp_all add: records_of_def fetch_ok_def split: sum.splits)

lemma length_failures_of: "length (failures_of e xs) = length (filter (\<lambda>item. \<not> fetch_ok e item) xs)"
  by (simp add: failures_of_def)

lemma detailUrl_make_course: "detailUrl (make_course e item d) = stub.url item"
  by (simp add: make_course_def make_base_def Let_def Course_base.defs Course.defs)



lemma urls_accounted:
  "mset (map detailUrl (records_of e xs)) + mset (failures_of e xs) = mset (map stub.url xs)"
proof (induction xs)
  case Nil
  show ?case by (simp add: records_of_def failures_of_def)
next
  case (Cons x xs)
  have r: "records_of e (x # xs) = records_of e [x] @ records_of e xs"
    using records_of_append[of e "[x]" xs] by simp
  have f: "failures_of e (x # xs) = failures_of e [x] @ failures_of e xs"
    using failures_of_append[of e "[x]" xs] by simp
  have h: "mset (map detailUrl (records_of e [x])) + mset (failures_of e [x]) = {#stub.url x#}"
    by (cases "page_detail e (stub.url x)")
       (simp_all add: records_of_single failures_of_single detailUrl_make_course)
  have "mset (map detailUrl (records_of e (x # xs))) + mset (failures_of e (x # xs))
      = (mset (map detailUrl (records_of e [x])) + mset (failures_of e [x]))
        + (mset (map detailUrl (records_of e xs)) + mset (failures_of e xs))"
    by (simp add: r f)
  also have "\<dots> = {#stub.url x#} + mset (map stub.url xs)"
    by (simp only: h Cons.IH)
  also have "\<dots> = mset (map stub.url (x # xs))" by simp
  finally show ?case .
qed

lemma worker_step_length:
  "worker_step e queue w st = Some st' \<Longrightarrow> length (workers st') = length (workers st)"
  by (auto simp: worker_step_def Let_def fetchDetail_settle_def split: if_splits worker.splits sum.splits)

lemma worker_step_decreases:
  assumes "worker_step e queue w st = Some st'"
  shows "steps_left queue st' < steps_left queue st"
proof -
  have w: "w < length (workers st)"
    using assms by (auto simp: worker_step_def split: if_splits)
  note ru = rank_update[OF w]
  show ?thesis
  proof (cases "workers st ! w")
    case Looping
    show ?thesis
    proof (cases "next_index st < length queue")
      case True
      then have st': "st' = st\<lparr>next_index := next_index st + 1,
          workers := (workers st)[w := Fetching (queue ! next_index st)]\<rparr>"
        using assms w Looping by (simp add: worker_step_def Let_def queue_at_def)
      have "sum_list (map rank ((workers st)[w := Fetching (queue ! next_index st)])) + 1
              = sum_list (map rank (workers st)) + 3"
        using ru[of "Fetching (queue ! next_index st)"] Looping by (simp add: rank_def)
      then show ?thesis using True by (simp add: st' steps_left_def)
    next
      case False
      then have st': "st' = st\<lparr>workers := (workers st)[w := Finished]\<rparr>"
        using assms w Looping by (simp add: worker_step_def)
      have "sum_list (map rank ((workers st)[w := Finished])) + 1 = sum_list (map rank (workers st))"
        using ru[of Finished] Looping by (simp add: rank_def)
      then show ?thesis by (simp add: st' steps_left_def)
    qed
  next
    case (Fetching item)
    then have st': "st' = (fetchDetail_settle e item st)\<lparr>workers := (workers st)[w := Pacing]\<rparr>"
      using assms w by (simp add: worker_step_def)
    have n: "next_index (fetchDetail_settle e item st) = next_index st"
      by (simp add: fetchDetail_settle_def split: sum.splits)
    have "sum_list (map rank ((workers st)[w := Pacing])) + 3 = sum_list (map rank (workers st)) + 2"
      using ru[of Pacing] Fetching by (simp add: rank_def)
    then show ?thesis by (simp add: st' steps_left_def n)
  next
    case Pacing
    then have st': "st' = st\<lparr>workers := (workers st)[w := Looping]\<rparr>"
      using assms w by (simp add: worker_step_def)
    have "sum_list (map rank ((workers st)[w := Looping])) + 2 = sum_list (map rank (workers st)) + 1"
      using ru[of Looping] Pacing by (simp add: rank_def)
    then show ?thesis by (simp add: st' steps_left_def)
  next
    case Finished
    then show ?thesis using assms w by (simp add: worker_step_def)
  qed
qed

lemma worker_step_enabled:
  assumes "\<not> all_finished st"
  shows "\<exists>w st'. worker_step e queue w st = Some st'"
proof -
  obtain x where x: "x \<in> set (workers st)" "x \<noteq> Finished"
    using assms by (auto simp: all_finished_def list_all_iff)
  then obtain w where w: "w < length (workers st)" "workers st ! w = x"
    by (auto simp: in_set_conv_nth)
  have "\<exists>st'. worker_step e queue w st = Some st'"
    using w x(2) by (cases x) (simp_all add: worker_step_def Let_def)
  then show ?thesis by blast
qed


lemma run_decreases:
  "run e queue sched st = Some st' \<Longrightarrow> steps_left queue st' + length sched \<le> steps_left queue st"
proof (induction sched arbitrary: st)
  case Nil
  then show ?case by simp
next
  case (Cons w ws)
  then obtain st1 where 1: "worker_step e queue w st = Some st1" and 2: "run e queue ws st1 = Some st'"
    by (auto split: option.splits)
  have "steps_left queue st' + length ws \<le> steps_left queue st1" using 2 by (rule Cons.IH)
  moreover have "steps_left queue st1 < steps_left queue st" using 1 by (rule worker_step_decreases)
  ultimately show ?case by simp
qed

lemma run_length:
  "run e queue sched st = Some st' \<Longrightarrow> length (workers st') = length (workers st)"
proof (induction sched arbitrary: st)
  case Nil
  then show ?case by simp
next
  case (Cons w ws)
  then obtain st1 where 1: "worker_step e queue w st = Some st1" and 2: "run e queue ws st1 = Some st'"
    by (auto split: option.splits)
  show ?case using Cons.IH[OF 2] worker_step_length[OF 1] by simp
qed

lemma run_completes:
  "\<exists>sched st'. run e queue sched st = Some st' \<and> all_finished st'"
proof (induction "steps_left queue st" arbitrary: st rule: less_induct)
  case less
  show ?case
  proof (cases "all_finished st")
    case True
    then have "run e queue [] st = Some st \<and> all_finished st" by simp
    then show ?thesis by blast
  next
    case False
    then obtain w st1 where 1: "worker_step e queue w st = Some st1"
      using worker_step_enabled by blast
    then have "steps_left queue st1 < steps_left queue st" by (rule worker_step_decreases)
    then obtain sched st' where "run e queue sched st1 = Some st'" "all_finished st'"
      using less by blast
    then have "run e queue (w # sched) st = Some st' \<and> all_finished st'" using 1 by simp
    then show ?thesis by blast
  qed
qed

subsection \<open>The worker pool: the invariant\<close>


lemma in_flight_replicate: "in_flight (replicate n Looping) = []"
  by (induction n) (simp_all add: in_flight_def)

lemma pool_inv_start: "pool_inv e queue (start queue)"
proof -
  have "mset [] + mset (in_flight (workers (start queue))) = mset (take (next_index (start queue)) queue)
        \<and> mset (courses (start queue)) = mset (records_of e [])
        \<and> mset (warnings (start queue)) = mset (failures_of e [])"
    by (simp add: start_def in_flight_replicate records_of_def failures_of_def)
  then have ex: "\<exists>settled. mset settled + mset (in_flight (workers (start queue)))
          = mset (take (next_index (start queue)) queue)
        \<and> mset (courses (start queue)) = mset (records_of e settled)
        \<and> mset (warnings (start queue)) = mset (failures_of e settled)"
    by blast
  have f: "\<not> list_ex (\<lambda>w. w = Finished) (workers (start queue))"
    by (simp add: start_def list_ex_iff)
  have w: "workers (start queue) = [] \<longrightarrow> queue = []"
    by (cases queue) (simp_all add: start_def MAX_CONCURRENCY_def min_def)
  have n: "next_index (start queue) \<le> length queue" by (simp add: start_def)
  show ?thesis unfolding pool_inv_def using n ex f w by blast
qed

lemma finished_update:
  assumes "list_ex (\<lambda>w. w = Finished) (ws[i := x])" and "x \<noteq> Finished"
  shows "list_ex (\<lambda>w. w = Finished) ws"
proof -
  have "Finished \<in> set (ws[i := x])" using assms(1) by (simp add: list_ex_iff)
  then have "Finished \<in> insert x (set ws)" using set_update_subset_insert by fastforce
  then show ?thesis using assms(2) by (simp add: list_ex_iff)
qed

lemma pool_inv_step:
  assumes inv: "pool_inv e queue st" and step: "worker_step e queue w st = Some st'"
  shows "pool_inv e queue st'"
proof -
  let ?ws = "workers st"
  let ?i = "next_index st"
  have w: "w < length ?ws"
    using step by (auto simp: worker_step_def split: if_splits)
  have le: "?i \<le> length queue" using inv by (simp add: pool_inv_def)
  obtain settled where s1: "mset settled + mset (in_flight ?ws) = mset (take ?i queue)"
      and s2: "mset (courses st) = mset (records_of e settled)"
      and s3: "mset (warnings st) = mset (failures_of e settled)"
    using inv unfolding pool_inv_def by blast
  have fin: "list_ex (\<lambda>w. w = Finished) ?ws \<longrightarrow> ?i = length queue"
    using inv by (simp add: pool_inv_def)
  have ne: "?ws = [] \<longrightarrow> queue = []" using inv by (simp add: pool_inv_def)
  note fl = in_flight_update[OF w]
  show ?thesis
  proof (cases "?ws ! w")
    case Looping
    show ?thesis
    proof (cases "?i < length queue")
      case True
      let ?q = "queue ! ?i"
      have st': "st' = st\<lparr>next_index := ?i + 1, workers := ?ws[w := Fetching ?q]\<rparr>"
        using step w Looping True by (simp add: worker_step_def Let_def queue_at_def)
      have "mset (in_flight (?ws[w := Fetching ?q])) = mset (in_flight ?ws) + {#?q#}"
        using fl[of "Fetching ?q"] Looping by (simp add: in_flight_def)
      moreover have "mset (take (Suc ?i) queue) = mset (take ?i queue) + {#?q#}"
        using True by (simp add: take_Suc_conv_app_nth)
      ultimately have a: "mset settled + mset (in_flight (?ws[w := Fetching ?q])) = mset (take (Suc ?i) queue)"
        using s1 by simp
      have b: "\<not> list_ex (\<lambda>w. w = Finished) (?ws[w := Fetching ?q])"
      proof
        assume "list_ex (\<lambda>w. w = Finished) (?ws[w := Fetching ?q])"
        then have "list_ex (\<lambda>w. w = Finished) ?ws" by (rule finished_update) simp
        then show False using fin True by simp
      qed
      have c: "?ws[w := Fetching ?q] = [] \<longrightarrow> queue = []" using ne by simp
      have d: "Suc ?i \<le> length queue" using True by simp
      have "\<exists>x. mset x + mset (in_flight (?ws[w := Fetching ?q])) = mset (take (Suc ?i) queue)
              \<and> mset (courses st) = mset (records_of e x) \<and> mset (warnings st) = mset (failures_of e x)"
        using a s2 s3 by blast
      then show ?thesis unfolding pool_inv_def st' using b c d by simp
    next
      case False
      then have i: "?i = length queue" using le by simp
      have st': "st' = st\<lparr>workers := ?ws[w := Finished]\<rparr>"
        using step w Looping False by (simp add: worker_step_def)
      have "mset (in_flight (?ws[w := Finished])) = mset (in_flight ?ws)"
        using fl[of Finished] Looping by (simp add: in_flight_def)
      then have a: "mset settled + mset (in_flight (?ws[w := Finished])) = mset (take ?i queue)"
        using s1 by simp
      have c: "?ws[w := Finished] = [] \<longrightarrow> queue = []" using ne by simp
      have "\<exists>x. mset x + mset (in_flight (?ws[w := Finished])) = mset (take ?i queue)
              \<and> mset (courses st) = mset (records_of e x) \<and> mset (warnings st) = mset (failures_of e x)"
        using a s2 s3 by blast
      then show ?thesis unfolding pool_inv_def st' using c i by simp
    qed
  next
    case (Fetching item)
    let ?st1 = "fetchDetail_settle e item st"
    have st': "st' = ?st1\<lparr>workers := ?ws[w := Pacing]\<rparr>"
      using step w Fetching by (simp add: worker_step_def)
    have n1: "next_index ?st1 = ?i"
      by (simp add: fetchDetail_settle_def split: sum.splits)
    have "mset (in_flight (?ws[w := Pacing])) + {#item#} = mset (in_flight ?ws)"
      using fl[of Pacing] Fetching by (simp add: in_flight_def)
    then have a: "mset (settled @ [item]) + mset (in_flight (?ws[w := Pacing])) = mset (take ?i queue)"
      using s1 by (simp add: add.commute add.left_commute) (metis add.commute add_mset_add_single union_mset_add_mset_right)
    have c1: "mset (courses ?st1) = mset (records_of e (settled @ [item]))"
      using s2 by (cases "page_detail e (stub.url item)")
        (simp_all add: fetchDetail_settle_def records_of_append records_of_single)
    have c2: "mset (warnings ?st1) = mset (failures_of e (settled @ [item]))"
      using s3 by (cases "page_detail e (stub.url item)")
        (simp_all add: fetchDetail_settle_def failures_of_append failures_of_single)
    have b: "list_ex (\<lambda>w. w = Finished) (?ws[w := Pacing]) \<longrightarrow> ?i = length queue"
      using finished_update[of ?ws w Pacing] fin by auto
    have c: "?ws[w := Pacing] = [] \<longrightarrow> queue = []" using ne by simp
    have "\<exists>x. mset x + mset (in_flight (?ws[w := Pacing])) = mset (take ?i queue)
            \<and> mset (courses ?st1) = mset (records_of e x) \<and> mset (warnings ?st1) = mset (failures_of e x)"
      using a c1 c2 by blast
    then show ?thesis unfolding pool_inv_def st' using b c le n1 by simp
  next
    case Pacing
    have st': "st' = st\<lparr>workers := ?ws[w := Looping]\<rparr>"
      using step w Pacing by (simp add: worker_step_def)
    have "mset (in_flight (?ws[w := Looping])) = mset (in_flight ?ws)"
      using fl[of Looping] Pacing by (simp add: in_flight_def)
    then have a: "mset settled + mset (in_flight (?ws[w := Looping])) = mset (take ?i queue)"
      using s1 by simp
    have b: "list_ex (\<lambda>w. w = Finished) (?ws[w := Looping]) \<longrightarrow> ?i = length queue"
      using finished_update[of ?ws w Looping] fin by auto
    have c: "?ws[w := Looping] = [] \<longrightarrow> queue = []" using ne by simp
    have "\<exists>x. mset x + mset (in_flight (?ws[w := Looping])) = mset (take ?i queue)
            \<and> mset (courses st) = mset (records_of e x) \<and> mset (warnings st) = mset (failures_of e x)"
      using a s2 s3 by blast
    then show ?thesis unfolding pool_inv_def st' using b c le by simp
  next
    case Finished
    then show ?thesis using step w by (simp add: worker_step_def)
  qed
qed

lemma pool_inv_run:
  "pool_inv e queue st \<Longrightarrow> run e queue sched st = Some st' \<Longrightarrow> pool_inv e queue st'"
proof (induction sched arbitrary: st)
  case Nil
  then show ?case by simp
next
  case (Cons w ws)
  then obtain st1 where 1: "worker_step e queue w st = Some st1" and 2: "run e queue ws st1 = Some st'"
    by (auto split: option.splits)
  have "pool_inv e queue st1" using Cons.prems(1) 1 by (rule pool_inv_step)
  then show ?case using 2 by (rule Cons.IH)
qed

lemma in_flight_finished: "list_all (\<lambda>w. w = Finished) ws \<Longrightarrow> in_flight ws = []"
  by (induction ws) (simp_all add: in_flight_def)

lemma pool_inv_final:
  assumes "pool_inv e queue st" and "all_finished st"
  shows "mset (courses st) = mset (records_of e queue) \<and> mset (warnings st) = mset (failures_of e queue)"
proof -
  obtain settled where s1: "mset settled + mset (in_flight (workers st)) = mset (take (next_index st) queue)"
      and s2: "mset (courses st) = mset (records_of e settled)"
      and s3: "mset (warnings st) = mset (failures_of e settled)"
    using assms(1) unfolding pool_inv_def by blast
  have fl: "in_flight (workers st) = []"
    using assms(2) by (simp add: all_finished_def in_flight_finished)
  have i: "next_index st = length queue"
  proof (cases "workers st")
    case Nil
    then have "queue = []" using assms(1) by (simp add: pool_inv_def)
    then show ?thesis using assms(1) by (simp add: pool_inv_def)
  next
    case (Cons x xs)
    then have "list_ex (\<lambda>w. w = Finished) (workers st)"
      using assms(2) by (simp add: all_finished_def)
    then show ?thesis using assms(1) by (simp add: pool_inv_def)
  qed
  have "mset settled = mset queue" using s1 fl i by simp
  then show ?thesis using s2 s3 records_of_perm failures_of_perm by metis
qed

section \<open>Part III: the properties\<close>

subsection \<open>C1: the diff classifies every entry\<close>

text \<open>
  C1. For snapshots \<open>prev\<close> and \<open>cur\<close>, \<open>compareCourses\<close> puts into \<open>added\<close> exactly the
  records of \<open>cur\<close> whose id is not in \<open>prev\<close>, into \<open>changed\<close> exactly the pairs of the
  record of \<open>prev\<close> and the record of \<open>cur\<close> under one id whose hashes differ, and into
  \<open>removed\<close> exactly the records of \<open>prev\<close> whose id is not in \<open>cur\<close>, each once and in
  the order of its map. An id that both maps hold with equal hashes stands in none of
  the three lists, whatever the other fields are.
\<close>

theorem compareCourses_classifies:
  assumes "snapshot prev" and "snapshot cur"
  shows "added (compareCourses prev cur) = map snd (filter (\<lambda>(k, c). Map_get prev k = None) cur)
       \<and> changed (compareCourses prev cur) =
           concat (map (\<lambda>(k, c). case Map_get prev k of
                                     None \<Rightarrow> []
                                   | Some p \<Rightarrow> if hash p \<noteq> hash c then [\<lparr>before = p, after = c\<rparr>] else []) cur)
       \<and> removed (compareCourses prev cur) = map snd (filter (\<lambda>(k, p). Map_get cur k = None) prev)
       \<and> (\<forall>c. c \<in> set (added (compareCourses prev cur)) \<longleftrightarrow>
                (\<exists>k. Map_get cur k = Some c \<and> Map_get prev k = None))
       \<and> (\<forall>ch. ch \<in> set (changed (compareCourses prev cur)) \<longleftrightarrow>
                (\<exists>k. Map_get cur k = Some (after ch) \<and> Map_get prev k = Some (before ch)
                     \<and> hash (before ch) \<noteq> hash (after ch)))
       \<and> (\<forall>p. p \<in> set (removed (compareCourses prev cur)) \<longleftrightarrow>
                (\<exists>k. Map_get prev k = Some p \<and> Map_get cur k = None))
       \<and> (\<forall>k p c. Map_get prev k = Some p \<and> Map_get cur k = Some c \<and> hash p = hash c \<longrightarrow>
              k \<notin> set (map id' (added (compareCourses prev cur)))
            \<and> k \<notin> set (map (\<lambda>ch. id' (after ch)) (changed (compareCourses prev cur)))
            \<and> k \<notin> set (map (\<lambda>ch. id' (before ch)) (changed (compareCourses prev cur)))
            \<and> k \<notin> set (map id' (removed (compareCourses prev cur))))"
proof -
  let ?d = "compareCourses prev cur"
  have a: "added ?d = map snd (filter (\<lambda>(k, c). Map_get prev k = None) cur)"
    by (simp add: compareCourses_eq)
  have c: "changed ?d = concat (map (\<lambda>(k, c). case Map_get prev k of
                                     None \<Rightarrow> []
                                   | Some p \<Rightarrow> if hash p \<noteq> hash c then [\<lparr>before = p, after = c\<rparr>] else []) cur)"
    by (simp add: compareCourses_eq changes_of_def)
  have r: "removed ?d = map snd (filter (\<lambda>(k, p). Map_get cur k = None) prev)"
    by (simp add: compareCourses_eq Map_has_get)
  have u: "k \<notin> set (map id' (added ?d))
            \<and> k \<notin> set (map (\<lambda>ch. id' (after ch)) (changed ?d))
            \<and> k \<notin> set (map (\<lambda>ch. id' (before ch)) (changed ?d))
            \<and> k \<notin> set (map id' (removed ?d))"
    if h: "Map_get prev k = Some p \<and> Map_get cur k = Some c \<and> hash p = hash c" for k p c
  proof -
    have 1: "k \<notin> set (map id' (added ?d))"
    proof
      assume "k \<in> set (map id' (added ?d))"
      then obtain x where x: "x \<in> set (added ?d)" "id' x = k" by auto
      then obtain k' where "Map_get cur k' = Some x" "Map_get prev k' = None"
        using added_set[OF assms(2)] by blast
      then show False using x h snapshot_get_id[OF assms(2)] by fastforce
    qed
    have 2: "k \<notin> set (map (\<lambda>ch. id' (after ch)) (changed ?d))"
    proof
      assume "k \<in> set (map (\<lambda>ch. id' (after ch)) (changed ?d))"
      then obtain ch where x: "ch \<in> set (changed ?d)" "id' (after ch) = k" by auto
      then obtain k' where k': "Map_get cur k' = Some (after ch)" "Map_get prev k' = Some (before ch)"
          "hash (before ch) \<noteq> hash (after ch)"
        using changed_set[OF assms(2)] by blast
      then have "k' = k" using x snapshot_get_id[OF assms(2)] by fastforce
      then show False using k' h by simp
    qed
    have 3: "k \<notin> set (map (\<lambda>ch. id' (before ch)) (changed ?d))"
    proof
      assume "k \<in> set (map (\<lambda>ch. id' (before ch)) (changed ?d))"
      then obtain ch where x: "ch \<in> set (changed ?d)" "id' (before ch) = k" by auto
      then obtain k' where k': "Map_get cur k' = Some (after ch)" "Map_get prev k' = Some (before ch)"
          "hash (before ch) \<noteq> hash (after ch)"
        using changed_set[OF assms(2)] by blast
      then have "k' = k" using x snapshot_get_id[OF assms(1)] by fastforce
      then show False using k' h by simp
    qed
    have 4: "k \<notin> set (map id' (removed ?d))"
    proof
      assume "k \<in> set (map id' (removed ?d))"
      then obtain x where x: "x \<in> set (removed ?d)" "id' x = k" by auto
      then obtain k' where k': "Map_get prev k' = Some x" "Map_get cur k' = None"
        using removed_set[OF assms(1)] by blast
      then have "k' = k" using x snapshot_get_id[OF assms(1)] by fastforce
      then show False using k' h by simp
    qed
    show ?thesis using 1 2 3 4 by blast
  qed
  show ?thesis
    using a c r added_set[OF assms(2)] changed_set[OF assms(2)] removed_set[OF assms(1)] u
    by (intro conjI allI impI) blast+
qed

theorem compareCourses_classifies_witness:
  "let c0 = \<lparr>id' = [], title = js ''t'', instructor = [], term' = [], dayPeriod = [],
             room = None, updatedAt = None, bodyText = [], detailUrl = js ''u'', hash = []\<rparr>;
       c1a = c0\<lparr>id' := js ''C1'', hash := js ''a''\<rparr>;
       c1z = c0\<lparr>id' := js ''C1'', hash := js ''z''\<rparr>;
       c2 = c0\<lparr>id' := js ''C2'', hash := js ''b''\<rparr>;
       c3 = c0\<lparr>id' := js ''C3'', hash := js ''c''\<rparr>;
       c5 = c0\<lparr>id' := js ''C5'', hash := js ''e''\<rparr>;
       c5' = c0\<lparr>id' := js ''C5'', hash := js ''e'', detailUrl := js ''v''\<rparr>;
       prev = [(js ''C1'', c1a), (js ''C3'', c3), (js ''C5'', c5)];
       cur = [(js ''C1'', c1z), (js ''C2'', c2), (js ''C5'', c5')]
   in snapshot prev \<and> snapshot cur
    \<and> added (compareCourses prev cur) = [c2]
    \<and> changed (compareCourses prev cur) = [\<lparr>before = c1a, after = c1z\<rparr>]
    \<and> removed (compareCourses prev cur) = [c3]"
proof -
  define c0 :: Course where "c0 = \<lparr>id' = [], title = js ''t'', instructor = [], term' = [], dayPeriod = [],
             room = None, updatedAt = None, bodyText = [], detailUrl = js ''u'', hash = []\<rparr>"
  define prev where "prev = [(js ''C1'', c0\<lparr>id' := js ''C1'', hash := js ''a''\<rparr>),
                             (js ''C3'', c0\<lparr>id' := js ''C3'', hash := js ''c''\<rparr>),
                             (js ''C5'', c0\<lparr>id' := js ''C5'', hash := js ''e''\<rparr>)]"
  define cur where "cur = [(js ''C1'', c0\<lparr>id' := js ''C1'', hash := js ''z''\<rparr>),
                           (js ''C2'', c0\<lparr>id' := js ''C2'', hash := js ''b''\<rparr>),
                           (js ''C5'', c0\<lparr>id' := js ''C5'', hash := js ''e'', detailUrl := js ''v''\<rparr>)]"
  have sp: "snapshot prev" by (simp add: snapshot_def prev_def c0_def js_def)
  have sc: "snapshot cur" by (simp add: snapshot_def cur_def c0_def js_def)
  note th = compareCourses_classifies[OF sp sc]
  have a: "added (compareCourses prev cur) = [c0\<lparr>id' := js ''C2'', hash := js ''b''\<rparr>]"
    using th by (simp add: prev_def cur_def Map_get_def js_def)
  have c: "changed (compareCourses prev cur) =
      [\<lparr>before = c0\<lparr>id' := js ''C1'', hash := js ''a''\<rparr>, after = c0\<lparr>id' := js ''C1'', hash := js ''z''\<rparr>\<rparr>]"
    using th by (simp add: prev_def cur_def Map_get_def js_def c0_def)
  have r: "removed (compareCourses prev cur) = [c0\<lparr>id' := js ''C3'', hash := js ''c''\<rparr>]"
    using th by (simp add: prev_def cur_def Map_get_def js_def)
  show ?thesis
    using sp sc a c r unfolding Let_def c0_def prev_def cur_def by simp
qed

subsection \<open>C2: the diff partitions the ids\<close>

text \<open>
  C2. For snapshots \<open>prev\<close> and \<open>cur\<close>, the ids of \<open>added\<close>, \<open>changed\<close>, \<open>removed\<close> and
  the unchanged ids (those in both maps with equal hashes) are together the ids of the two
  maps, and no id stands in two of the four lists or twice in one. The lengths of \<open>added\<close>,
  \<open>changed\<close> and the unchanged ids add up to the size of \<open>cur\<close>, those of \<open>removed\<close>,
  \<open>changed\<close> and the unchanged ids to the size of \<open>prev\<close>. The diff of a snapshot with
  itself is empty.
\<close>

theorem compareCourses_partition:
  assumes "snapshot prev" and "snapshot cur"
  shows "set (map id' (added (compareCourses prev cur)))
           \<union> set (map (\<lambda>ch. id' (after ch)) (changed (compareCourses prev cur)))
           \<union> set (map id' (removed (compareCourses prev cur)))
           \<union> set (unchanged prev cur)
         = set (map fst prev) \<union> set (map fst cur)
       \<and> distinct (map id' (added (compareCourses prev cur))
             @ map (\<lambda>ch. id' (after ch)) (changed (compareCourses prev cur))
             @ map id' (removed (compareCourses prev cur))
             @ unchanged prev cur)
       \<and> length (added (compareCourses prev cur)) + length (changed (compareCourses prev cur))
           + length (unchanged prev cur) = length cur
       \<and> length (removed (compareCourses prev cur)) + length (changed (compareCourses prev cur))
           + length (unchanged prev cur) = length prev
       \<and> (prev = cur \<longrightarrow> compareCourses prev cur = \<lparr>added = [], changed = [], removed = []\<rparr>)"
proof -
  let ?d = "compareCourses prev cur"
  define PA where "PA = (\<lambda>(k, c :: Course). Map_get prev k = None)"
  define PC where "PC = (\<lambda>(k, c :: Course). case Map_get prev k of None \<Rightarrow> False | Some p \<Rightarrow> hash p \<noteq> hash c)"
  define PU where "PU = (\<lambda>(k, c :: Course). case Map_get prev k of None \<Rightarrow> False | Some p \<Rightarrow> hash p = hash c)"
  define A where "A = map fst (filter PA cur)"
  define C where "C = map fst (filter PC cur)"
  define U where "U = map fst (filter PU cur)"
  define R where "R = map fst (filter (\<lambda>(k, p :: Course). \<not> Map_has cur k) prev)"
  have dp: "distinct (map fst prev)" and dc: "distinct (map fst cur)"
    using assms by (simp_all add: snapshot_distinct)
  have eqA: "map id' (added ?d) = A"
    using keyed_map_id[OF snapshot_keyed[OF assms(2)]] by (simp add: compareCourses_eq A_def PA_def)
  have eqC: "map (\<lambda>ch. id' (after ch)) (changed ?d) = C"
    using keyed_changes_id[OF snapshot_keyed[OF assms(2)]] by (simp add: compareCourses_eq C_def PC_def)
  have eqR: "map id' (removed ?d) = R"
    using keyed_map_id[OF snapshot_keyed[OF assms(1)]] by (simp add: compareCourses_eq R_def)
  have eqU: "unchanged prev cur = U" by (simp add: unchanged_def U_def PU_def)
  have "PA x \<or> PC x \<or> PU x" for x
    by (cases x) (simp add: PA_def PC_def PU_def split: option.splits)
  then have cover: "set A \<union> set C \<union> set U = set (map fst cur)"
    unfolding A_def C_def U_def by (rule three_way_cover)
  have Rset: "set R = set (map fst prev) - set (map fst cur)"
    unfolding R_def by (rule removed_keys)
  have union: "set A \<union> set C \<union> set R \<union> set U = set (map fst prev) \<union> set (map fst cur)"
    using cover Rset by (rule four_way_union)
  have dA: "distinct A" and dC: "distinct C" and dU: "distinct U" and dR: "distinct R"
    using dp dc by (simp_all add: filter_keys_distinct A_def C_def U_def R_def)
  have AC: "set A \<inter> set C = {}"
    unfolding A_def C_def
    by (rule filter_keys_disjoint[OF dc]) (simp add: PA_def PC_def split: prod.splits option.splits)
  have AU: "set A \<inter> set U = {}"
    unfolding A_def U_def
    by (rule filter_keys_disjoint[OF dc]) (simp add: PA_def PU_def split: prod.splits option.splits)
  have CU: "set C \<inter> set U = {}"
    unfolding C_def U_def
    by (rule filter_keys_disjoint[OF dc]) (simp add: PC_def PU_def split: prod.splits option.splits)
  have dist: "distinct (A @ C @ R @ U)"
    using dA dC dR dU AC AU CU cover Rset by (rule four_way_distinct)
  have lc: "length (added ?d) + length (changed ?d) + length (unchanged prev cur) = length cur"
    using length_three_way[of prev cur] by (simp add: compareCourses_eq)
  have "length (removed ?d) + length (filter (\<lambda>(k, p). Map_has cur k) prev) = length prev"
    using length_filter_has_not[of cur prev] by (simp add: compareCourses_eq)
  moreover have "length (filter (\<lambda>(k, p). Map_has cur k) prev)
                   = length (changed ?d) + length (unchanged prev cur)"
    using common_sym[OF dp dc] length_common[of prev cur] by (simp add: compareCourses_eq)
  ultimately have lp: "length (removed ?d) + length (changed ?d) + length (unchanged prev cur) = length prev"
    by simp
  have same: "prev = cur \<longrightarrow> ?d = \<lparr>added = [], changed = [], removed = []\<rparr>"
    using same_snapshot_empty[OF assms(1)] by blast
  show ?thesis
    unfolding eqA eqC eqR using union[folded eqU] dist[folded eqU] lc lp same
    by (intro conjI)
qed

theorem compareCourses_partition_witness:
  "let c0 = \<lparr>id' = [], title = js ''t'', instructor = [], term' = [], dayPeriod = [],
             room = None, updatedAt = None, bodyText = [], detailUrl = js ''u'', hash = []\<rparr>;
       prev = [(js ''C1'', c0\<lparr>id' := js ''C1'', hash := js ''a''\<rparr>),
               (js ''C3'', c0\<lparr>id' := js ''C3'', hash := js ''c''\<rparr>),
               (js ''C5'', c0\<lparr>id' := js ''C5'', hash := js ''e''\<rparr>)];
       cur = [(js ''C1'', c0\<lparr>id' := js ''C1'', hash := js ''z''\<rparr>),
              (js ''C2'', c0\<lparr>id' := js ''C2'', hash := js ''b''\<rparr>),
              (js ''C5'', c0\<lparr>id' := js ''C5'', hash := js ''e'', detailUrl := js ''v''\<rparr>)]
   in snapshot prev \<and> snapshot cur
    \<and> unchanged prev cur = [js ''C5'']
    \<and> length (added (compareCourses prev cur)) + length (changed (compareCourses prev cur)) + 1 = 3
    \<and> length (removed (compareCourses prev cur)) + length (changed (compareCourses prev cur)) + 1 = 3
    \<and> compareCourses cur cur = \<lparr>added = [], changed = [], removed = []\<rparr>"
proof -
  define c0 :: Course where "c0 = \<lparr>id' = [], title = js ''t'', instructor = [], term' = [], dayPeriod = [],
             room = None, updatedAt = None, bodyText = [], detailUrl = js ''u'', hash = []\<rparr>"
  define prev where "prev = [(js ''C1'', c0\<lparr>id' := js ''C1'', hash := js ''a''\<rparr>),
               (js ''C3'', c0\<lparr>id' := js ''C3'', hash := js ''c''\<rparr>),
               (js ''C5'', c0\<lparr>id' := js ''C5'', hash := js ''e''\<rparr>)]"
  define cur where "cur = [(js ''C1'', c0\<lparr>id' := js ''C1'', hash := js ''z''\<rparr>),
              (js ''C2'', c0\<lparr>id' := js ''C2'', hash := js ''b''\<rparr>),
              (js ''C5'', c0\<lparr>id' := js ''C5'', hash := js ''e'', detailUrl := js ''v''\<rparr>)]"
  have sp: "snapshot prev" by (simp add: snapshot_def prev_def c0_def js_def)
  have sc: "snapshot cur" by (simp add: snapshot_def cur_def c0_def js_def)
  have u: "unchanged prev cur = [js ''C5'']"
    by (simp add: unchanged_def Map_get_def prev_def cur_def c0_def js_def)
  have lp: "length prev = 3" and lc: "length cur = 3" by (simp_all add: prev_def cur_def)
  note th = compareCourses_partition[OF sp sc]
  have 1: "length (added (compareCourses prev cur)) + length (changed (compareCourses prev cur)) + 1 = 3"
    using th u lc by simp
  have 2: "length (removed (compareCourses prev cur)) + length (changed (compareCourses prev cur)) + 1 = 3"
    using th u lp by simp
  have 3: "compareCourses cur cur = \<lparr>added = [], changed = [], removed = []\<rparr>"
    using compareCourses_partition[OF sc sc] by blast
  show ?thesis
    using sp sc u 1 2 3 unfolding Let_def c0_def prev_def cur_def by simp
qed

subsection \<open>C3: the fingerprint\<close>

text \<open>
  C3. The fingerprint of a record is the digest of the canonicalized title, instructor,
  term, schedule, room (the empty string if absent), last-updated label (the empty string
  if absent) and body text, joined with the pipe character. So two records whose seven
  canonicalized values are equal one by one have the same fingerprint. The digest itself,
  SHA-256 in lowercase hexadecimal, is the library's; it is the parameter \<open>sha256_hex\<close>.
\<close>

theorem makeHash_fingerprint:
  "makeHash sha256_hex c =
     sha256_hex (canonicalize (title c) @ js ''|'' @ canonicalize (instructor c) @ js ''|''
       @ canonicalize (term' c) @ js ''|'' @ canonicalize (dayPeriod c) @ js ''|''
       @ canonicalize (case room c of None \<Rightarrow> [] | Some r \<Rightarrow> r) @ js ''|''
       @ canonicalize (case updatedAt c of None \<Rightarrow> [] | Some u \<Rightarrow> u) @ js ''|''
       @ canonicalize (bodyText c))
   \<and> (canonicalize (title c) = canonicalize (title c')
      \<and> canonicalize (instructor c) = canonicalize (instructor c')
      \<and> canonicalize (term' c) = canonicalize (term' c')
      \<and> canonicalize (dayPeriod c) = canonicalize (dayPeriod c')
      \<and> canonicalize (case room c of None \<Rightarrow> [] | Some r \<Rightarrow> r)
          = canonicalize (case room c' of None \<Rightarrow> [] | Some r \<Rightarrow> r)
      \<and> canonicalize (case updatedAt c of None \<Rightarrow> [] | Some u \<Rightarrow> u)
          = canonicalize (case updatedAt c' of None \<Rightarrow> [] | Some u \<Rightarrow> u)
      \<and> canonicalize (bodyText c) = canonicalize (bodyText c')
      \<longrightarrow> makeHash sha256_hex c = makeHash sha256_hex c')"
proof -
  have key: "makeHash f x =
     f (canonicalize (title x) @ js ''|'' @ canonicalize (instructor x) @ js ''|''
       @ canonicalize (term' x) @ js ''|'' @ canonicalize (dayPeriod x) @ js ''|''
       @ canonicalize (case room x of None \<Rightarrow> [] | Some r \<Rightarrow> r) @ js ''|''
       @ canonicalize (case updatedAt x of None \<Rightarrow> [] | Some u \<Rightarrow> u) @ js ''|''
       @ canonicalize (bodyText x))" for f x
    by (simp add: makeHash_def Let_def nullish_def normalizeText_canonicalize)
  show ?thesis
    using key[of sha256_hex c] key[of sha256_hex c'] by simp
qed

theorem makeHash_fingerprint_witness:
  "\<forall>f. makeHash f
         \<lparr>id' = js ''A'', title = js ''  Logic '' @ LF # js ''I'', instructor = js ''N. N.'',
          term' = js ''spring'', dayPeriod = js ''Mon 1'', room = None, updatedAt = Some [],
          bodyText = js ''x'' @ NBSP # NBSP # js ''y'', detailUrl = js ''u''\<rparr>
       = makeHash f
         \<lparr>id' = js ''B'', title = js ''Logic I'', instructor = js ''N.  N.'',
          term' = js ''spring '', dayPeriod = js ''Mon 1'', room = Some (js '' ''),
          updatedAt = None, bodyText = js ''x y'', detailUrl = js ''v''\<rparr>
     \<and> makeHash f
         \<lparr>id' = js ''B'', title = js ''Logic I'', instructor = js ''N.  N.'',
          term' = js ''spring '', dayPeriod = js ''Mon 1'', room = Some (js '' ''),
          updatedAt = None, bodyText = js ''x y'', detailUrl = js ''v''\<rparr>
       = f (js ''Logic I|N. N.|spring|Mon 1|||x y'')"
proof
  fix f :: "jsstring \<Rightarrow> jsstring"
  let ?a = "\<lparr>id' = js ''A'', title = js ''  Logic '' @ LF # js ''I'', instructor = js ''N. N.'',
          term' = js ''spring'', dayPeriod = js ''Mon 1'', room = None, updatedAt = Some [],
          bodyText = js ''x'' @ NBSP # NBSP # js ''y'', detailUrl = js ''u''\<rparr>"
  let ?b = "\<lparr>id' = js ''B'', title = js ''Logic I'', instructor = js ''N.  N.'',
          term' = js ''spring '', dayPeriod = js ''Mon 1'', room = Some (js '' ''),
          updatedAt = None, bodyText = js ''x y'', detailUrl = js ''v''\<rparr>"
  have ev: "canonicalize (js ''  Logic '' @ LF # js ''I'') = js ''Logic I''"
      "canonicalize (js ''Logic I'') = js ''Logic I''"
      "canonicalize (js ''N. N.'') = js ''N. N.''"
      "canonicalize (js ''N.  N.'') = js ''N. N.''"
      "canonicalize (js ''spring'') = js ''spring''"
      "canonicalize (js ''spring '') = js ''spring''"
      "canonicalize (js ''Mon 1'') = js ''Mon 1''"
      "canonicalize [] = []"
      "canonicalize (js '' '') = []"
      "canonicalize (js ''x'' @ NBSP # NBSP # js ''y'') = js ''x y''"
      "canonicalize (js ''x y'') = js ''x y''"
    by (simp_all add: canonicalize_def trim_def js_def is_space_def SP_def LF_def NBSP_def)
  have cat: "js ''Logic I'' @ js ''|'' @ js ''N. N.'' @ js ''|'' @ js ''spring'' @ js ''|''
      @ js ''Mon 1'' @ js ''|'' @ [] @ js ''|'' @ [] @ js ''|'' @ js ''x y''
      = js ''Logic I|N. N.|spring|Mon 1|||x y''"
    by (simp add: js_def)
  have 1: "makeHash f ?a = makeHash f ?b"
    by (rule mp[OF conjunct2[OF makeHash_fingerprint[of f ?a ?b]]])
       (simp only: Course_base.simps option.case ev simp_thms)
  have 2: "makeHash f ?b = f (js ''Logic I|N. N.|spring|Mon 1|||x y'')"
    using conjunct1[OF makeHash_fingerprint[of f ?b ?b]]
    by (simp only: Course_base.simps option.case ev cat)
  show "makeHash f ?a = makeHash f ?b \<and> makeHash f ?b = f (js ''Logic I|N. N.|spring|Mon 1|||x y'')"
    using 1 2 by (rule conjI)
qed

subsection \<open>C4: canonicalization is idempotent\<close>

text \<open>
  C4. Canonicalization is idempotent: \<open>normalizeText\<close> applied to its own result returns
  that result, for every string.
\<close>

theorem normalizeText_idempotent: "normalizeText (normalizeText s) = normalizeText s"
  by (simp only: normalizeText_canonicalize canonicalize_idem)

subsection \<open>C5: the load never throws\<close>

text \<open>
  C5. \<open>loadPrev\<close> never throws: at every path its result is a map. When the file cannot be
  read, when its text is not JSON, when the JSON is not an array, or when an element of the
  array is \<^verbatim>\<open>null\<close> (so that \<^verbatim>\<open>c.id\<close> throws), the result is the empty map. A missing file
  and a corrupted one so give the same result.
\<close>

theorem loadPrev_never_raises:
  "(\<exists>m. loadPrev fs p = Inr m)
   \<and> (\<forall>e. load_body fs p = Inl e \<longrightarrow> loadPrev fs p = Inr [])
   \<and> (files fs p = None \<longrightarrow> loadPrev fs p = Inr [])
   \<and> (files fs p = Some Malformed \<longrightarrow> loadPrev fs p = Inr [])
   \<and> (\<forall>v. files fs p = Some (Json v) \<and> (\<forall>xs. v \<noteq> JArr xs) \<longrightarrow> loadPrev fs p = Inr [])
   \<and> (\<forall>xs. files fs p = Some (Json (JArr xs)) \<and> JNull \<in> set xs \<longrightarrow> loadPrev fs p = Inr [])"
proof (intro conjI allI impI)
  show "\<exists>m. loadPrev fs p = Inr m"
    by (cases "load_body fs p") (simp_all add: loadPrev_def)
next
  fix e assume "load_body fs p = Inl e"
  then show "loadPrev fs p = Inr []" by (rule loadPrev_caught)
next
  assume "files fs p = None"
  then show "loadPrev fs p = Inr []" using load_body_missing loadPrev_caught by blast
next
  assume "files fs p = Some Malformed"
  then show "loadPrev fs p = Inr []" using load_body_malformed loadPrev_caught by blast
next
  fix v assume "files fs p = Some (Json v) \<and> (\<forall>xs. v \<noteq> JArr xs)"
  then show "loadPrev fs p = Inr []" using load_body_no_array loadPrev_caught by blast
next
  fix xs assume "files fs p = Some (Json (JArr xs)) \<and> JNull \<in> set xs"
  then show "loadPrev fs p = Inr []" using load_body_null_element loadPrev_caught by blast
qed

theorem loadPrev_never_raises_witness:
  "loadPrev \<lparr>files = [js ''a'' \<mapsto> Malformed, js ''b'' \<mapsto> Json (JObj [(js ''id'', JStr (js ''x''))]),
                       js ''c'' \<mapsto> Json (JArr [JNum 1, JNull])],
             dirs = {js ''.''}\<rparr> (js ''a'') = Inr []
   \<and> loadPrev \<lparr>files = [js ''a'' \<mapsto> Malformed, js ''b'' \<mapsto> Json (JObj [(js ''id'', JStr (js ''x''))]),
                       js ''c'' \<mapsto> Json (JArr [JNum 1, JNull])],
             dirs = {js ''.''}\<rparr> (js ''b'') = Inr []
   \<and> loadPrev \<lparr>files = [js ''a'' \<mapsto> Malformed, js ''b'' \<mapsto> Json (JObj [(js ''id'', JStr (js ''x''))]),
                       js ''c'' \<mapsto> Json (JArr [JNum 1, JNull])],
             dirs = {js ''.''}\<rparr> (js ''c'') = Inr []
   \<and> loadPrev \<lparr>files = [js ''a'' \<mapsto> Malformed, js ''b'' \<mapsto> Json (JObj [(js ''id'', JStr (js ''x''))]),
                       js ''c'' \<mapsto> Json (JArr [JNum 1, JNull])],
             dirs = {js ''.''}\<rparr> (js ''d'') = Inr []"
proof -
  let ?fs = "\<lparr>files = [js ''a'' \<mapsto> Malformed, js ''b'' \<mapsto> Json (JObj [(js ''id'', JStr (js ''x''))]),
                       js ''c'' \<mapsto> Json (JArr [JNum 1, JNull])],
             dirs = {js ''.''}\<rparr>"
  have a: "files ?fs (js ''a'') = Some Malformed" by (simp add: js_def)
  have b: "files ?fs (js ''b'') = Some (Json (JObj [(js ''id'', JStr (js ''x''))]))
           \<and> (\<forall>xs. JObj [(js ''id'', JStr (js ''x''))] \<noteq> JArr xs)" by (simp add: js_def)
  have c: "files ?fs (js ''c'') = Some (Json (JArr [JNum 1, JNull])) \<and> JNull \<in> set [JNum 1, JNull]"
    by (simp add: js_def)
  have d: "files ?fs (js ''d'') = None" by (simp add: js_def)
  have 1: "loadPrev ?fs (js ''a'') = Inr []"
    using loadPrev_never_raises[of ?fs "js ''a''"] a by blast
  have 2: "loadPrev ?fs (js ''b'') = Inr []"
    using loadPrev_never_raises[of ?fs "js ''b''"] b by blast
  have 3: "loadPrev ?fs (js ''c'') = Inr []"
    using loadPrev_never_raises[of ?fs "js ''c''"] c by blast
  have 4: "loadPrev ?fs (js ''d'') = Inr []"
    using loadPrev_never_raises[of ?fs "js ''d''"] d by blast
  show ?thesis using 1 2 3 4 by (intro conjI)
qed

subsection \<open>C6: the worker pool\<close>

text \<open>
  C6. With the worker limit 3, a queue of 7 stubs and a deterministic fetch that fails for
  exactly 2 of them: the pool has 3 workers; some schedule lets all of them return; every
  schedule has at most 24 steps, and in every state that a schedule reaches a worker that
  has not returned can step, so no failure stops the pool or another worker. Whenever all
  workers have returned, whatever the schedule was, \<^verbatim>\<open>courses\<close> holds exactly 5 records,
  the records of the stubs whose fetch succeeds, 2 warnings were logged, those of the
  stubs whose fetch fails, and every stub is accounted for exactly once, by its record or
  by its warning.
\<close>


theorem pool_seven_stubs_two_failures:
  assumes "length queue = 7" and "length (filter (\<lambda>item. \<not> fetch_ok e item) queue) = 2"
  shows "(\<exists>sched st. run e queue sched (start queue) = Some st \<and> all_finished st)
       \<and> (\<forall>sched st. run e queue sched (start queue) = Some st \<longrightarrow>
              length (workers st) = 3
            \<and> length sched \<le> 24
            \<and> (\<not> all_finished st \<longrightarrow> (\<exists>w st'. worker_step e queue w st = Some st'))
            \<and> (all_finished st \<longrightarrow>
                  length (courses st) = 5
                \<and> mset (courses st) = mset (records_of e queue)
                \<and> length (warnings st) = 2
                \<and> mset (warnings st) = mset (failures_of e queue)
                \<and> mset (map detailUrl (courses st)) + mset (warnings st) = mset (map stub.url queue)))"
proof (intro conjI allI impI)
  show "\<exists>sched st. run e queue sched (start queue) = Some st \<and> all_finished st"
    by (rule run_completes)
next
  fix sched st
  assume r: "run e queue sched (start queue) = Some st"
  have w0: "length (workers (start queue)) = 3"
    using assms(1) by (simp add: start_def MAX_CONCURRENCY_def)
  show "length (workers st) = 3" using run_length[OF r] w0 by simp
  have "sum_list (map rank (replicate 3 Looping)) = 3"
    by (simp add: rank_def numeral_3_eq_3)
  then have "steps_left queue (start queue) = 24"
    using assms(1) by (simp add: steps_left_def start_def MAX_CONCURRENCY_def)
  then show "length sched \<le> 24" using run_decreases[OF r] by simp
  show "\<exists>w st'. worker_step e queue w st = Some st'" if "\<not> all_finished st"
    using that by (rule worker_step_enabled)
  have inv: "pool_inv e queue st" using pool_inv_start r by (rule pool_inv_run)
  have ok: "length (filter (fetch_ok e) queue) = 5"
    using assms sum_length_filter_compl[of "fetch_ok e" queue] by simp
  {
    assume f: "all_finished st"
    note fin = pool_inv_final[OF inv f]
    have c: "mset (courses st) = mset (records_of e queue)" using fin by simp
    have wn: "mset (warnings st) = mset (failures_of e queue)" using fin by simp
    show "mset (courses st) = mset (records_of e queue)" by (rule c)
    show "mset (warnings st) = mset (failures_of e queue)" by (rule wn)
    have "length (courses st) = length (records_of e queue)"
      using c by (rule mset_eq_length)
    then show "length (courses st) = 5" using ok by (simp add: length_records_of)
    have "length (warnings st) = length (failures_of e queue)"
      using wn by (rule mset_eq_length)
    then show "length (warnings st) = 2" using assms(2) by (simp add: length_failures_of)
    have "mset (map detailUrl (courses st)) = mset (map detailUrl (records_of e queue))"
      using c by (metis mset_map)
    then show "mset (map detailUrl (courses st)) + mset (warnings st) = mset (map stub.url queue)"
      using wn urls_accounted[of e queue] by simp
  }
qed

theorem pool_seven_stubs_two_failures_witness:
  "let e = \<lparr>page_detail = (\<lambda>u. if u = js ''2'' \<or> u = js ''5'' then Inl SystemError
                               else Inr \<lparr>detail.bodyText = u, detail.updatedAt = [], detail.room = []\<rparr>),
              new_URL = (\<lambda>u. Inl TypeError), digest = (\<lambda>k. k)\<rparr>;
       queue = map (\<lambda>u. \<lparr>stub.id' = u, stub.title = [], url = u, stub.instructor = [],
                            stub.term' = [], stub.dayPeriod = []\<rparr>)
                   [js ''0'', js ''1'', js ''2'', js ''3'', js ''4'', js ''5'', js ''6''];
       sched = [0, 1, 2, 2, 1, 0, 0, 1, 2, 1, 1, 1, 2, 0, 0, 0, 2, 2, 1, 1, 1, 0, 2, 1]
   in length queue = 7
    \<and> length (filter (\<lambda>item. \<not> fetch_ok e item) queue) = 2
    \<and> (case run e queue sched (start queue) of
          None \<Rightarrow> False
        | Some st \<Rightarrow>
            all_finished st \<and> length (courses st) = 5
          \<and> warnings st = [js ''2'', js ''5'']
          \<and> map detailUrl (courses st) = [js ''1'', js ''0'', js ''3'', js ''4'', js ''6''])"
proof -
  define e :: env where "e = \<lparr>page_detail = (\<lambda>u. if u = js ''2'' \<or> u = js ''5'' then Inl SystemError
                               else Inr \<lparr>detail.bodyText = u, detail.updatedAt = [], detail.room = []\<rparr>),
              new_URL = (\<lambda>u. Inl TypeError), digest = (\<lambda>k. k)\<rparr>"
  define queue where "queue = map (\<lambda>u. \<lparr>stub.id' = u, stub.title = [], url = u, stub.instructor = [],
                            stub.term' = [], stub.dayPeriod = []\<rparr>)
                   [js ''0'', js ''1'', js ''2'', js ''3'', js ''4'', js ''5'', js ''6'']"
  define sched :: "nat list"
    where "sched = [0, 1, 2, 2, 1, 0, 0, 1, 2, 1, 1, 1, 2, 0, 0, 0, 2, 2, 1, 1, 1, 0, 2, 1]"
  have l: "length queue = 7" by (simp add: queue_def)
  have f: "length (filter (\<lambda>item. \<not> fetch_ok e item) queue) = 2"
    unfolding e_def queue_def by code_simp
  have r: "case run e queue sched (start queue) of
          None \<Rightarrow> False
        | Some st \<Rightarrow>
            all_finished st
          \<and> warnings st = [js ''2'', js ''5'']
          \<and> map detailUrl (courses st) = [js ''1'', js ''0'', js ''3'', js ''4'', js ''6'']"
    unfolding e_def queue_def sched_def by code_simp
  then obtain st where st: "run e queue sched (start queue) = Some st" "all_finished st"
      "warnings st = [js ''2'', js ''5'']"
      "map detailUrl (courses st) = [js ''1'', js ''0'', js ''3'', js ''4'', js ''6'']"
    by (cases "run e queue sched (start queue)") auto
  have "length (courses st) = 5"
    using pool_seven_stubs_two_failures[OF l f] st(1) st(2) by blast
  then have "case run e queue sched (start queue) of
          None \<Rightarrow> False
        | Some st \<Rightarrow>
            all_finished st \<and> length (courses st) = 5
          \<and> warnings st = [js ''2'', js ''5'']
          \<and> map detailUrl (courses st) = [js ''1'', js ''0'', js ''3'', js ''4'', js ''6'']"
    using st by simp
  then show ?thesis
    unfolding Let_def e_def[symmetric] queue_def[symmetric] sched_def[symmetric] using l f by simp
qed


subsection \<open>C7: save, then load\<close>

text \<open>
  C7, as the code has it. When \<open>saveCurr\<close> returns, the file holds the whole list, and
  \<open>loadPrev\<close> of it returns the snapshot of the list: the records keyed by their ids, each
  id with the last record of the list that has it, every field of a record as it was
  saved. It is a snapshot: its keys are pairwise distinct and are the ids of their
  records. For a list whose ids are pairwise distinct it is the list itself, record by
  record.
\<close>

theorem saveCurr_loadPrev_roundtrip:
  assumes "saveCurr fs p cs = Inr fs'"
  shows "files fs' p = Some (Json (JArr (map course_val cs)))
       \<and> loadPrev fs' p = Inr (stored (snapshot_of cs))
       \<and> (\<forall>c \<in> set cs. course_of_val (course_val c) = Some c)
       \<and> (\<forall>k. Map_get (snapshot_of cs) k = find (\<lambda>c. id' c = k) (rev cs))
       \<and> snapshot (snapshot_of cs)
       \<and> (distinct (map id' cs) \<longrightarrow> snapshot_of cs = map (\<lambda>c. (id' c, c)) cs)"
proof -
  have f: "files fs' p = Some (JSON_stringify cs)" using assms by (rule saveCurr_files)
  then have l: "loadPrev fs' p = Inr (stored (snapshot_of cs))"
    by (simp add: loadPrev_def load_body_stringify)
  show ?thesis
    using f l course_of_val_course_val snapshot_of_get snapshot_of_distinct snapshot_snapshot_of
    by (simp add: JSON_stringify_def)
qed

theorem saveCurr_loadPrev_roundtrip_witness:
  "let c0 = \<lparr>id' = js ''A'', title = js ''t'', instructor = [], term' = [], dayPeriod = [],
             room = Some (js ''r''), updatedAt = None, bodyText = [], detailUrl = js ''u'', hash = js ''h''\<rparr>;
       c1 = c0\<lparr>id' := js ''B''\<rparr>;
       fs0 = \<lparr>files = Map.empty, dirs = {}\<rparr>
   in case saveCurr fs0 (js ''d/c.json'') [c0, c1] of
        Inl e \<Rightarrow> False
      | Inr fs' \<Rightarrow>
          loadPrev fs' (js ''d/c.json'') = Inr [(KeyStr (js ''A''), course_val c0), (KeyStr (js ''B''), course_val c1)]
        \<and> js ''d'' \<in> dirs fs' \<and> course_of_val (course_val c1) = Some c1"
proof -
  define c0 :: Course where "c0 = \<lparr>id' = js ''A'', title = js ''t'', instructor = [], term' = [], dayPeriod = [],
             room = Some (js ''r''), updatedAt = None, bodyText = [], detailUrl = js ''u'', hash = js ''h''\<rparr>"
  define c1 where "c1 = c0\<lparr>id' := js ''B''\<rparr>"
  define fs0 :: filesystem where "fs0 = \<lparr>files = Map.empty, dirs = {}\<rparr>"
  have dn: "dirname (js ''d/c.json'') = js ''d''"
    by (simp add: dirname_def js_def slash_def Let_def)
  have dd: "dirname (js ''d'') = js ''.''" "dirname (js ''.'') = js ''.''"
    by (simp_all add: dirname_def js_def slash_def Let_def)
  have an: "ancestors (length (js ''d'')) (js ''d'') = [js ''d'', js ''.'']"
    using dd by (simp add: js_def)
  obtain fs' where s: "saveCurr fs0 (js ''d/c.json'') [c0, c1] = Inr fs'" and d: "js ''d'' \<in> dirs fs'"
    by (simp add: saveCurr_def Let_def dn an existsSync_def mkdirSync_def writeFileSync_def fs0_def)
       (simp add: js_def)
  have ids: "distinct (map id' [c0, c1])" by (simp add: c0_def c1_def js_def)
  note th = saveCurr_loadPrev_roundtrip[OF s]
  have "snapshot_of [c0, c1] = [(js ''A'', c0), (js ''B'', c1)]"
    using th ids by (simp add: c0_def c1_def)
  then have l: "loadPrev fs' (js ''d/c.json'') = Inr [(KeyStr (js ''A''), course_val c0), (KeyStr (js ''B''), course_val c1)]"
    using th by (simp add: stored_def)
  have r: "course_of_val (course_val c1) = Some c1" using th by simp
  show ?thesis
    using s d l r unfolding Let_def c0_def[symmetric] c1_def[symmetric] fs0_def[symmetric] by simp
qed

text \<open>
  The round trip does not keep two records that share an id: the map that \<open>loadPrev\<close>
  builds has one entry for the id, and the record saved first is not in it.
\<close>

theorem saveCurr_loadPrev_shared_id_counterexample:
  "let c0 = \<lparr>id' = js ''A'', title = js ''t'', instructor = [], term' = [], dayPeriod = [],
             room = None, updatedAt = None, bodyText = [], detailUrl = js ''u'', hash = js ''h''\<rparr>;
       c1 = c0\<lparr>title := js ''s''\<rparr>;
       fs0 = \<lparr>files = Map.empty, dirs = {}\<rparr>
   in case saveCurr fs0 (js ''d/c.json'') [c0, c1] of
        Inl e \<Rightarrow> False
      | Inr fs' \<Rightarrow>
          loadPrev fs' (js ''d/c.json'') = Inr [(KeyStr (js ''A''), course_val c1)]
        \<and> course_val c0 \<noteq> course_val c1"
proof -
  define c0 :: Course where "c0 = \<lparr>id' = js ''A'', title = js ''t'', instructor = [], term' = [], dayPeriod = [],
             room = None, updatedAt = None, bodyText = [], detailUrl = js ''u'', hash = js ''h''\<rparr>"
  define c1 where "c1 = c0\<lparr>title := js ''s''\<rparr>"
  define fs0 :: filesystem where "fs0 = \<lparr>files = Map.empty, dirs = {}\<rparr>"
  have dn: "dirname (js ''d/c.json'') = js ''d''"
    by (simp add: dirname_def js_def slash_def Let_def)
  have dd: "dirname (js ''d'') = js ''.''" "dirname (js ''.'') = js ''.''"
    by (simp_all add: dirname_def js_def slash_def Let_def)
  have an: "ancestors (length (js ''d'')) (js ''d'') = [js ''d'', js ''.'']"
    using dd by (simp add: js_def)
  obtain fs' where s: "saveCurr fs0 (js ''d/c.json'') [c0, c1] = Inr fs'"
      and f: "files fs' (js ''d/c.json'') = Some (JSON_stringify [c0, c1])"
    by (simp add: saveCurr_def Let_def dn an existsSync_def mkdirSync_def writeFileSync_def fs0_def)
       (simp add: js_def)
  have m: "map_elements id_entry 0 [course_val c0, course_val c1]
      = Inr [(KeyStr (js ''A''), course_val c0), (KeyStr (js ''A''), course_val c1)]"
    by (simp add: id_entry_course_val c0_def c1_def)
  have l: "loadPrev fs' (js ''d/c.json'') = Inr [(KeyStr (js ''A''), course_val c1)]"
    by (simp add: loadPrev_def load_body_def readFileSync_def f JSON_parse_def JSON_stringify_def
        array_map_def m Map_new_def del: map_elements.simps)
  have n: "course_val c0 \<noteq> course_val c1"
    by (simp add: course_val_def c0_def c1_def js_def)
  show ?thesis
    using s l n unfolding Let_def c0_def[symmetric] c1_def[symmetric] fs0_def[symmetric] by simp
qed

subsection \<open>C8: the id of a record\<close>

text \<open>
  C8, as the code has it. The id of the record that \<open>fetchDetail\<close> makes for a stub is
  the stub's id when that is not empty; otherwise the value of the first query parameter
  named \<^verbatim>\<open>id\<close> of the locator, when the locator parses as a URL that carries the
  parameter with a value that is not empty; otherwise the locator itself, also when it does
  not parse as a URL.
\<close>


theorem final_id_rule:
  "id' (make_course e item d) =
     (if stub.id' item \<noteq> [] then stub.id' item
      else case new_URL e (stub.url item) of
             Inl err \<Rightarrow> stub.url item
           | Inr params \<Rightarrow>
               (case searchParams_get params (js ''id'') of
                  None \<Rightarrow> stub.url item
                | Some v \<Rightarrow> if v \<noteq> [] then v else stub.url item))"
  by (simp add: make_course_def make_base_def Let_def Course_base.defs Course.defs
      or_else_def idFromUrl_def split: sum.splits option.splits)

theorem final_id_rule_witness:
  "let e = \<lparr>page_detail = (\<lambda>u. Inr \<lparr>detail.bodyText = [], detail.updatedAt = [], detail.room = []\<rparr>),
              new_URL = (\<lambda>u. if u = js ''https://x/d?y=1&id=42'' then Inr [(js ''y'', js ''1''), (js ''id'', js ''42'')]
                              else Inl TypeError),
              digest = (\<lambda>k. k)\<rparr>;
       d = \<lparr>detail.bodyText = [], detail.updatedAt = [], detail.room = []\<rparr>;
       item = \<lparr>stub.id' = [], stub.title = [], url = js ''https://x/d?y=1&id=42'', stub.instructor = [],
               stub.term' = [], stub.dayPeriod = []\<rparr>
   in id' (make_course e item d) = js ''42''
    \<and> id' (make_course e (item\<lparr>stub.id' := js ''7''\<rparr>) d) = js ''7''
    \<and> id' (make_course e (item\<lparr>url := js ''detail''\<rparr>) d) = js ''detail''"
proof -
  define e :: env where "e = \<lparr>page_detail = (\<lambda>u. Inr \<lparr>detail.bodyText = [], detail.updatedAt = [], detail.room = []\<rparr>),
              new_URL = (\<lambda>u. if u = js ''https://x/d?y=1&id=42'' then Inr [(js ''y'', js ''1''), (js ''id'', js ''42'')]
                              else Inl TypeError),
              digest = (\<lambda>k. k)\<rparr>"
  define d :: detail where "d = \<lparr>detail.bodyText = [], detail.updatedAt = [], detail.room = []\<rparr>"
  define item :: stub where "item = \<lparr>stub.id' = [], stub.title = [], url = js ''https://x/d?y=1&id=42'', stub.instructor = [],
               stub.term' = [], stub.dayPeriod = []\<rparr>"
  have 1: "id' (make_course e item d) = js ''42''"
    using final_id_rule[of e item d]
    by (simp add: e_def item_def searchParams_get_def js_def)
  have 2: "id' (make_course e (item\<lparr>stub.id' := js ''7''\<rparr>) d) = js ''7''"
    using final_id_rule[of e "item\<lparr>stub.id' := js ''7''\<rparr>" d]
    by (simp add: js_def)
  have 3: "id' (make_course e (item\<lparr>url := js ''detail''\<rparr>) d) = js ''detail''"
    using final_id_rule[of e "item\<lparr>url := js ''detail''\<rparr>" d]
    by (simp add: e_def item_def js_def)
  show ?thesis
    using 1 2 3 unfolding Let_def e_def d_def item_def by (intro conjI)
qed

text \<open>
  A parameter \<^verbatim>\<open>id\<close> that the URL carries with the empty value is not the id: \<^verbatim>\<open>||\<close>
  passes on to the locator.
\<close>

theorem final_id_empty_parameter_counterexample:
  "let e = \<lparr>page_detail = (\<lambda>u. Inr \<lparr>detail.bodyText = [], detail.updatedAt = [], detail.room = []\<rparr>),
              new_URL = (\<lambda>u. if u = js ''https://x/d?id='' then Inr [(js ''id'', [])] else Inl TypeError),
              digest = (\<lambda>k. k)\<rparr>;
       d = \<lparr>detail.bodyText = [], detail.updatedAt = [], detail.room = []\<rparr>;
       item = \<lparr>stub.id' = [], stub.title = [], url = js ''https://x/d?id='', stub.instructor = [],
               stub.term' = [], stub.dayPeriod = []\<rparr>
   in new_URL e (stub.url item) = Inr [(js ''id'', [])]
    \<and> searchParams_get [(js ''id'', [])] (js ''id'') = Some []
    \<and> id' (make_course e item d) = js ''https://x/d?id=''
    \<and> id' (make_course e item d) \<noteq> []"
  by (simp add: Let_def make_course_def make_base_def Course_base.defs Course.defs
      or_else_def idFromUrl_def searchParams_get_def js_def)

subsection \<open>C9: the canonical form\<close>

text \<open>
  C9. For every string, \<open>normalizeText\<close> returns the string in which each maximal run of
  white space (line breaks and the non-breaking space included) is one ordinary space and
  from which leading and trailing white space is trimmed, the specification's
  \<open>canonicalize\<close>. The result neither starts nor ends with white space; its only white
  space is the ordinary space, so it holds no line feed, no carriage return and no
  non-breaking space; no two spaces are neighbours; and the code units that are not white
  space are those of the input, in order.
\<close>

theorem normalizeText_canonical:
  "normalizeText s = canonicalize s
   \<and> (normalizeText s \<noteq> [] \<longrightarrow>
        \<not> is_space (hd (normalizeText s)) \<and> \<not> is_space (last (normalizeText s)))
   \<and> (\<forall>c \<in> set (normalizeText s). is_space c \<longrightarrow> c = SP)
   \<and> LF \<notin> set (normalizeText s) \<and> CR \<notin> set (normalizeText s)
   \<and> NBSP \<notin> set (normalizeText s)
   \<and> (\<forall>i. Suc i < length (normalizeText s) \<longrightarrow>
          \<not> (normalizeText s ! i = SP \<and> normalizeText s ! Suc i = SP))
   \<and> filter (\<lambda>c. \<not> is_space c) (normalizeText s) = filter (\<lambda>c. \<not> is_space c) s"
proof -
  let ?t = "canonicalize s"
  have eq: "normalizeText s = ?t" by (rule normalizeText_canonicalize)
  have ends: "?t \<noteq> [] \<longrightarrow> \<not> is_space (hd ?t) \<and> \<not> is_space (last ?t)"
    using canonicalize_ends by blast
  have only: "\<forall>c \<in> set ?t. is_space c \<longrightarrow> c = SP"
    using canonicalize_only_SP by blast
  have lf: "LF \<notin> set ?t"
    using only is_space_LF LF_not_SP by blast
  have cr: "CR \<notin> set ?t"
    using only is_space_CR by (auto simp: CR_def SP_def)
  have nb: "NBSP \<notin> set ?t"
    using only is_space_NBSP NBSP_not_SP by blast
  have adj: "\<forall>i. Suc i < length ?t \<longrightarrow> \<not> (?t ! i = SP \<and> ?t ! Suc i = SP)"
    using no_double_nth[OF canonicalize_no_double] is_space_SP by metis
  have content: "filter (\<lambda>c. \<not> is_space c) ?t = filter (\<lambda>c. \<not> is_space c) s"
    by (simp only: canonicalize_def filter_trim collapse_set_nonspace)
  show ?thesis
    unfolding eq using ends only lf cr nb adj content by blast
qed

theorem normalizeText_canonical_witness:
  "normalizeText (js ''  a  b'' @ [CR, LF, LF, NBSP, 0x3000] @ js ''c '' @ [CR]) = js ''a b c''
   \<and> canonicalize (js ''  a  b'' @ [CR, LF, LF, NBSP, 0x3000] @ js ''c '' @ [CR]) = js ''a b c''"
proof -
  let ?s = "js ''  a  b'' @ [CR, LF, LF, NBSP, 0x3000] @ js ''c '' @ [CR]"
  have 1: "normalizeText ?s = js ''a b c''"
    by (simp add: normalizeText_def js_def trim_def match_nbsp_def match_spaces_def
        match_newlines_def is_space_def CR_def LF_def SP_def NBSP_def)
  have "normalizeText ?s = canonicalize ?s"
    using normalizeText_canonical[of ?s] by blast
  then show ?thesis using 1 by simp
qed

subsection \<open>C10: an invariant of the diff\<close>

text \<open>
  C10. For snapshots \<open>prev\<close> and \<open>cur\<close>, every entry of \<open>changed\<close> pairs two records of
  one id, the first the record of \<open>prev\<close> and the second the record of \<open>cur\<close> under that
  id, with different hashes; no record of \<open>added\<close> has its id in \<open>prev\<close>, and no record
  of \<open>removed\<close> has its id in \<open>cur\<close>.
\<close>


theorem compareCourses_invariant:
  assumes "snapshot prev" and "snapshot cur"
  shows "(\<forall>ch \<in> set (changed (compareCourses prev cur)).
            id' (before ch) = id' (after ch)
          \<and> Map_get prev (id' (before ch)) = Some (before ch)
          \<and> Map_get cur (id' (after ch)) = Some (after ch)
          \<and> hash (before ch) \<noteq> hash (after ch))
       \<and> (\<forall>c \<in> set (added (compareCourses prev cur)). \<not> Map_has prev (id' c))
       \<and> (\<forall>p \<in> set (removed (compareCourses prev cur)). \<not> Map_has cur (id' p))"
proof (intro conjI ballI)
  fix ch
  assume "ch \<in> set (changed (compareCourses prev cur))"
  then obtain k where k: "Map_get cur k = Some (after ch)" "Map_get prev k = Some (before ch)"
      "hash (before ch) \<noteq> hash (after ch)"
    using changed_set[OF assms(2)] by blast
  have a: "id' (after ch) = k" using k(1) by (rule snapshot_get_id[OF assms(2)])
  have b: "id' (before ch) = k" using k(2) by (rule snapshot_get_id[OF assms(1)])
  show "id' (before ch) = id' (after ch)" using a b by simp
  show "Map_get prev (id' (before ch)) = Some (before ch)" using k(2) b by simp
  show "Map_get cur (id' (after ch)) = Some (after ch)" using k(1) a by simp
  show "hash (before ch) \<noteq> hash (after ch)" by (rule k(3))
next
  fix c
  assume "c \<in> set (added (compareCourses prev cur))"
  then obtain k where k: "Map_get cur k = Some c" "Map_get prev k = None"
    using added_set[OF assms(2)] by blast
  have "id' c = k" using k(1) by (rule snapshot_get_id[OF assms(2)])
  then show "\<not> Map_has prev (id' c)" using k(2) by (simp add: Map_has_get)
next
  fix p
  assume "p \<in> set (removed (compareCourses prev cur))"
  then obtain k where k: "Map_get prev k = Some p" "Map_get cur k = None"
    using removed_set[OF assms(1)] by blast
  have "id' p = k" using k(1) by (rule snapshot_get_id[OF assms(1)])
  then show "\<not> Map_has cur (id' p)" using k(2) by (simp add: Map_has_get)
qed

theorem compareCourses_invariant_witness:
  "let c0 = \<lparr>id' = [], title = js ''t'', instructor = [], term' = [], dayPeriod = [],
             room = None, updatedAt = None, bodyText = [], detailUrl = js ''u'', hash = []\<rparr>;
       c1a = c0\<lparr>id' := js ''C1'', hash := js ''a''\<rparr>;
       c1z = c0\<lparr>id' := js ''C1'', hash := js ''z''\<rparr>;
       c2 = c0\<lparr>id' := js ''C2'', hash := js ''b''\<rparr>;
       c3 = c0\<lparr>id' := js ''C3'', hash := js ''c''\<rparr>;
       prev = [(js ''C1'', c1a), (js ''C3'', c3)];
       cur = [(js ''C1'', c1z), (js ''C2'', c2)]
   in snapshot prev \<and> snapshot cur
    \<and> compareCourses prev cur
        = \<lparr>added = [c2], changed = [\<lparr>before = c1a, after = c1z\<rparr>], removed = [c3]\<rparr>
    \<and> Map_get prev (id' c1a) = Some c1a \<and> Map_get cur (id' c1z) = Some c1z
    \<and> \<not> Map_has prev (id' c2) \<and> \<not> Map_has cur (id' c3)"
proof -
  define c0 :: Course where "c0 = \<lparr>id' = [], title = js ''t'', instructor = [], term' = [], dayPeriod = [],
             room = None, updatedAt = None, bodyText = [], detailUrl = js ''u'', hash = []\<rparr>"
  define c1a where "c1a = c0\<lparr>id' := js ''C1'', hash := js ''a''\<rparr>"
  define c1z where "c1z = c0\<lparr>id' := js ''C1'', hash := js ''z''\<rparr>"
  define c2 where "c2 = c0\<lparr>id' := js ''C2'', hash := js ''b''\<rparr>"
  define c3 where "c3 = c0\<lparr>id' := js ''C3'', hash := js ''c''\<rparr>"
  define prev where "prev = [(js ''C1'', c1a), (js ''C3'', c3)]"
  define cur where "cur = [(js ''C1'', c1z), (js ''C2'', c2)]"
  note defs = prev_def cur_def c1a_def c1z_def c2_def c3_def c0_def
  have sp: "snapshot prev" by (simp add: snapshot_def defs js_def)
  have sc: "snapshot cur" by (simp add: snapshot_def defs js_def)
  have d: "compareCourses prev cur
        = \<lparr>added = [c2], changed = [\<lparr>before = c1a, after = c1z\<rparr>], removed = [c3]\<rparr>"
    by (simp add: compareCourses_def Map_entries_def Map_get_def Map_has_def defs js_def)
  note th = compareCourses_invariant[OF sp sc, unfolded d]
  have "Map_get prev (id' c1a) = Some c1a \<and> Map_get cur (id' c1z) = Some c1z
    \<and> \<not> Map_has prev (id' c2) \<and> \<not> Map_has cur (id' c3)"
    using th by (simp del: Course_base.simps) metis
  then show ?thesis
    using sp sc d unfolding Let_def defs by simp
qed

end
